theory Spec2Isabelle
  imports Complex_Main
begin

section \<open>Numbers\<close>

text \<open>
  The program computes with JavaScript numbers. They are modelled here as exact real
  numbers: every finite double is a real, and the operations below are the exact ones.
  Rounding to the nearest double is outside the model; sums, differences and products of
  integers are exact in doubles below \<open>2 ^ 53\<close>, and so are \<open>Math.floor\<close> and
  \<open>Math.ceil\<close> of a quotient of two such integers. The values \<open>Infinity\<close> and
  \<open>NaN\<close> are outside the model as well. The only way the modelled functions could
  produce them from finite operands is a quotient or remainder with divisor zero, so
  these two operations are partial: \<open>None\<close> stands for a result that is not a finite
  number. Counters such as \<open>activeJobId\<close> and list indices are natural numbers.
\<close>

definition js_div :: "real \<Rightarrow> real \<Rightarrow> real option" where
  "js_div a b = (if b = 0 then None else Some (a / b))"

text \<open>\<open>Math.ceil\<close>, \<open>Math.floor\<close> and \<open>Math.round\<close> (which rounds halves up) on finite numbers.\<close>

definition math_ceil :: "real \<Rightarrow> int" where
  "math_ceil x = \<lceil>x\<rceil>"

definition math_floor :: "real \<Rightarrow> int" where
  "math_floor x = \<lfloor>x\<rfloor>"

definition math_round :: "real \<Rightarrow> int" where
  "math_round x = \<lfloor>x + 1 / 2\<rfloor>"

section \<open>Chunk estimator (worker)\<close>

text \<open>
  \<open>estimateChunkTotal\<close> of the transcription worker, branch by branch. The result is
  \<open>None\<close> only if one of its two divisions had divisor zero.
\<close>

definition estimateChunkTotal :: "real \<Rightarrow> real \<Rightarrow> real \<Rightarrow> real \<Rightarrow> int option" where
  "estimateChunkTotal sampleCount sampleRate chunkLength strideLength =
     (if chunkLength \<le> 0 then Some 1
      else
        let window = sampleRate * chunkLength;
            stride = sampleRate * strideLength;
            jump = window - 2 * stride
        in if window \<le> 0 then Some 1
           else if sampleCount \<le> window then Some 1
           else if jump \<le> 0 then map_option math_ceil (js_div sampleCount window)
           else map_option (\<lambda>q. max 1 (math_ceil q + 1)) (js_div (sampleCount - window) jump))"

text \<open>
  The estimator as the specification words it: one closed formula over \<open>window\<close>,
  \<open>stride\<close> and \<open>jump\<close>, with the mathematical quotient.
\<close>

definition estimateTotal_spec :: "real \<Rightarrow> real \<Rightarrow> real \<Rightarrow> real \<Rightarrow> int" where
  "estimateTotal_spec sampleCount sampleRate chunkLengthSeconds strideLengthSeconds =
     (let window = sampleRate * chunkLengthSeconds;
          stride = sampleRate * strideLengthSeconds;
          jump = window - 2 * stride
      in if chunkLengthSeconds \<le> 0 \<or> window \<le> 0 then 1
         else if sampleCount \<le> window then 1
         else if jump \<le> 0 then \<lceil>sampleCount / window\<rceil>
         else max 1 (\<lceil>(sampleCount - window) / jump\<rceil> + 1))"

section \<open>Resampler (App.vue and worker, the same text in both)\<close>

text \<open>
  A \<open>Float32Array\<close> is a list of reals. Reading it outside its bounds gives
  \<open>undefined\<close>, and arithmetic on \<open>undefined\<close> gives \<open>NaN\<close>: both are \<open>None\<close>.
\<close>

definition typed_at :: "real list \<Rightarrow> int \<Rightarrow> real option" where
  "typed_at xs i = (if 0 \<le> i \<and> i < int (length xs) then Some (xs ! nat i) else None)"

definition blend :: "real option \<Rightarrow> real option \<Rightarrow> real \<Rightarrow> real option" where
  "blend a b weight =
     (case a of None \<Rightarrow> None
      | Some x \<Rightarrow> (case b of None \<Rightarrow> None | Some y \<Rightarrow> Some (x * (1 - weight) + y * weight)))"

text \<open>The body of the loop of \<open>resampleToRate\<close> at output index \<open>i\<close>.\<close>

definition resample_at :: "real list \<Rightarrow> real \<Rightarrow> nat \<Rightarrow> real option" where
  "resample_at input ratio i =
     (case js_div (real i) ratio of
        None \<Rightarrow> None
      | Some position \<Rightarrow>
          let index = math_floor position;
              next = min (index + 1) (int (length input) - 1);
              weight = position - real_of_int index
          in blend (typed_at input index) (typed_at input next) weight)"

text \<open>
  \<open>resampleToRate\<close>. The result is \<open>None\<close> when \<open>targetRate / sourceRate\<close> is not a
  finite number; an element of the output is \<open>None\<close> when it is \<open>NaN\<close>.
\<close>

definition resampleToRate :: "real list \<Rightarrow> real \<Rightarrow> real \<Rightarrow> real option list option" where
  "resampleToRate input sourceRate targetRate =
     (if sourceRate = targetRate then Some (map Some input)
      else case js_div targetRate sourceRate of
        None \<Rightarrow> None
      | Some ratio \<Rightarrow>
          let len = max 1 (math_round (real (length input) * ratio))
          in Some (map (resample_at input ratio) [0..<nat len]))"

section \<open>Data model (App.vue)\<close>

record WorkerChunk =
  timestamp_start :: real
  timestamp_end :: "real option"
  chunk_text :: string

datatype WorkerMessage =
    MsgProgress nat int int
  | MsgPartial nat int int "WorkerChunk list"
  | MsgDone nat "WorkerChunk list"
  | MsgError nat string

fun jobId :: "WorkerMessage \<Rightarrow> nat" where
  "jobId (MsgProgress j _ _) = j"
| "jobId (MsgPartial j _ _ _) = j"
| "jobId (MsgDone j _) = j"
| "jobId (MsgError j _) = j"

record Segment =
  seg_id :: int
  seg_start :: real
  seg_end :: real
  seg_text :: string
  selected :: bool
  linkNext :: bool

datatype AutoGroupMode = ModeTime | ModeCount | ModeTotal

record AudioBuffer =
  duration :: real
  sampleRate :: real
  channelData :: "real list list"

text \<open>
  The status line is one of a few fixed texts, two of them with numbers or a message
  filled in; each text is a constructor.
\<close>

datatype Status =
    StatusEmpty
  | StatusDecoding
  | StatusAnalysing
  | StatusAnalysingCount int int
  | StatusMessage string
  | StatusWorkerFailed
  | StatusUploadFailed
  | StatusNeedAudio
  | StatusExporting
  | StatusExported
  | StatusExportFailed

record App =
  audioBuffer :: "AudioBuffer option"
  segments :: "Segment list"
  status :: Status
  isLoading :: bool
  isExporting :: bool
  selectAll :: bool
  showAutoGroupModal :: bool
  autoGroupMode :: AutoGroupMode
  autoGroupValue :: real
  activeJobId :: nat
  processedChunks :: int
  totalChunks :: int
  isTranscribing :: bool

datatype JsError = TypeError

section \<open>Receiving worker messages (App.vue)\<close>

text \<open>\<open>String.prototype.trim\<close> on byte strings: the ASCII white space characters.\<close>

definition is_space :: "char \<Rightarrow> bool" where
  "is_space c = (c \<in> set [CHR 0x09, CHR 0x0A, CHR 0x0B, CHR 0x0C, CHR 0x0D, CHR 0x20])"

definition trim :: "string \<Rightarrow> string" where
  "trim s = rev (dropWhile is_space (rev (dropWhile is_space s)))"

definition segment_of_chunk :: "real \<Rightarrow> nat \<times> WorkerChunk \<Rightarrow> Segment" where
  "segment_of_chunk total_duration ic =
     (case ic of (idx, chunk) \<Rightarrow>
        \<lparr>seg_id = int idx + 1,
         seg_start = timestamp_start chunk,
         seg_end = (case timestamp_end chunk of Some e \<Rightarrow> e | None \<Rightarrow> total_duration),
         seg_text = trim (chunk_text chunk),
         selected = True,
         linkNext = False\<rparr>)"

definition syncSegmentsFromChunks :: "WorkerChunk list \<Rightarrow> App \<Rightarrow> App" where
  "syncSegmentsFromChunks chunks st =
     (let total_duration = (case audioBuffer st of Some b \<Rightarrow> duration b | None \<Rightarrow> 0)
      in st\<lparr>segments := map (segment_of_chunk total_duration) (enumerate 0 chunks),
            selectAll := True\<rparr>)"

text \<open>The \<open>onmessage\<close> handler installed by \<open>attachWorker\<close>.\<close>

definition onmessage :: "WorkerMessage \<Rightarrow> App \<Rightarrow> App" where
  "onmessage data st =
     (if jobId data \<noteq> activeJobId st then st
      else case data of
        MsgProgress _ processed total_n \<Rightarrow>
          st\<lparr>processedChunks := processed, totalChunks := total_n,
             status := StatusAnalysingCount processed total_n\<rparr>
      | MsgPartial _ processed total_n chunks \<Rightarrow>
          (syncSegmentsFromChunks chunks
             (st\<lparr>processedChunks := processed, totalChunks := total_n\<rparr>))
            \<lparr>status := StatusAnalysingCount processed total_n\<rparr>
      | MsgDone _ chunks \<Rightarrow>
          (syncSegmentsFromChunks chunks st)
            \<lparr>status := StatusEmpty, isLoading := False, isTranscribing := False,
             processedChunks := int (length chunks), totalChunks := int (length chunks)\<rparr>
      | MsgError _ message \<Rightarrow>
          st\<lparr>status := (if message = [] then StatusWorkerFailed else StatusMessage message),
             isLoading := False, isTranscribing := False\<rparr>)"

section \<open>Submitting a job (App.vue, \<open>handleFileUpload\<close>)\<close>

text \<open>
  \<open>handleFileUpload\<close> runs in pieces separated by \<open>await\<close>, and worker messages can be
  handled between the pieces. \<open>upload_begin\<close> is the part before the first \<open>await\<close>,
  \<open>upload_decoded\<close> stores the decoded audio, \<open>upload_submit\<close> is the part from
  \<open>activeJobId += 1\<close> on, and \<open>upload_failed\<close> is the \<open>catch\<close> block.
\<close>

definition upload_begin :: "App \<Rightarrow> App" where
  "upload_begin st =
     st\<lparr>status := StatusDecoding, isLoading := True, isTranscribing := False,
        segments := [], processedChunks := 0, totalChunks := 0\<rparr>"

definition upload_decoded :: "AudioBuffer \<Rightarrow> App \<Rightarrow> App" where
  "upload_decoded buffer st = st\<lparr>audioBuffer := Some buffer\<rparr>"

definition upload_submit :: "App \<Rightarrow> App" where
  "upload_submit st =
     st\<lparr>activeJobId := activeJobId st + 1, processedChunks := 0, totalChunks := 0,
        isTranscribing := True, status := StatusAnalysing\<rparr>"

definition upload_failed :: "App \<Rightarrow> App" where
  "upload_failed st =
     st\<lparr>status := StatusUploadFailed, isTranscribing := False, isLoading := False\<rparr>"

datatype Event =
    UploadBegin
  | UploadDecoded AudioBuffer
  | UploadSubmit
  | UploadFailed
  | Message WorkerMessage

fun step :: "Event \<Rightarrow> App \<Rightarrow> App" where
  "step UploadBegin st = upload_begin st"
| "step (UploadDecoded buffer) st = upload_decoded buffer st"
| "step UploadSubmit st = upload_submit st"
| "step UploadFailed st = upload_failed st"
| "step (Message data) st = onmessage data st"

fun run :: "Event list \<Rightarrow> App \<Rightarrow> App" where
  "run [] st = st"
| "run (e # es) st = run es (step e st)"

text \<open>An event is stale for \<open>k\<close> when it is a worker message of a job older than \<open>k\<close>.\<close>

fun stale :: "nat \<Rightarrow> Event \<Rightarrow> bool" where
  "stale k (Message data) = (jobId data < k)"
| "stale k _ = False"

section \<open>Auto-grouping (App.vue, \<open>applyAutoGroup\<close>)\<close>

text \<open>
  The remainder operator \<open>%\<close> on finite numbers: the result takes the sign of the
  dividend. With divisor zero it is \<open>NaN\<close>, here \<open>None\<close>.
\<close>

definition js_trunc :: "real \<Rightarrow> int" where
  "js_trunc x = (if 0 \<le> x then \<lfloor>x\<rfloor> else \<lceil>x\<rceil>)"

definition js_rem :: "real \<Rightarrow> real \<Rightarrow> real option" where
  "js_rem a b = (if b = 0 then None else Some (a - b * real_of_int (js_trunc (a / b))))"

definition resetGroupingState :: "App \<Rightarrow> App" where
  "resetGroupingState st =
     st\<lparr>segments := map (\<lambda>s. s\<lparr>linkNext := False, selected := True\<rparr>) (segments st),
        selectAll := True\<rparr>"

text \<open>Count mode: the body of \<open>raw.forEach\<close>, over the segments with their indices.\<close>

definition count_link :: "real \<Rightarrow> nat \<Rightarrow> nat \<times> Segment \<Rightarrow> Segment" where
  "count_link val n iseg =
     (case iseg of (idx, seg) \<Rightarrow>
        if js_rem (real idx + 1) val \<noteq> Some 0 \<and> int idx < int n - 1
        then seg\<lparr>linkNext := True\<rparr> else seg)"

definition count_links :: "real \<Rightarrow> Segment list \<Rightarrow> Segment list" where
  "count_links val raw = map (count_link val (length raw)) (enumerate 0 raw)"

text \<open>
  Total mode. \<open>raw[cursor].linkNext = true\<close> throws a \<open>TypeError\<close> when \<open>cursor\<close> is
  past the end of the list; the segments as they are at that moment stay behind.
\<close>

definition set_link :: "Segment list \<Rightarrow> nat \<Rightarrow> (JsError \<times> Segment list) + Segment list" where
  "set_link raw cursor =
     (if cursor < length raw then Inr (raw[cursor := (raw ! cursor)\<lparr>linkNext := True\<rparr>])
      else Inl (TypeError, raw))"

function total_inner ::
  "Segment list \<Rightarrow> nat \<Rightarrow> int \<Rightarrow> nat \<Rightarrow> (JsError \<times> Segment list) + (Segment list \<times> nat)" where
  "total_inner raw cursor currentGroupSize i =
     (if int i < currentGroupSize then
        let isLastSentence = (int cursor = int (length raw) - 1);
            isLastInGroup = (int i = currentGroupSize - 1)
        in if \<not> isLastSentence \<and> \<not> isLastInGroup then
             (case set_link raw cursor of
                Inl err \<Rightarrow> Inl err
              | Inr raw' \<Rightarrow> total_inner raw' (cursor + 1) currentGroupSize (i + 1))
           else total_inner raw (cursor + 1) currentGroupSize (i + 1)
      else Inr (raw, cursor))"
  by pat_completeness auto
termination
  by (relation "measure (\<lambda>(raw, cursor, currentGroupSize, i). nat (currentGroupSize - int i))") auto

declare total_inner.simps [simp del]

function total_outer ::
  "Segment list \<Rightarrow> nat \<Rightarrow> real \<Rightarrow> int \<Rightarrow> real \<Rightarrow> nat \<Rightarrow> (JsError \<times> Segment list) + Segment list" where
  "total_outer raw cursor targetGroups baseSize remainder g =
     (if real g < targetGroups then
        let currentGroupSize = (if real g < remainder then baseSize + 1 else baseSize)
        in case total_inner raw cursor currentGroupSize 0 of
             Inl err \<Rightarrow> Inl err
           | Inr (raw', cursor') \<Rightarrow> total_outer raw' cursor' targetGroups baseSize remainder (g + 1)
      else Inr raw)"
  by pat_completeness auto
termination
proof (relation "measure (\<lambda>(raw, cursor, targetGroups, baseSize, remainder, g). nat \<lceil>targetGroups\<rceil> - g)",
    goal_cases)
  case 1
  show ?case by simp
next
  case (2 raw cursor targetGroups baseSize remainder g x y z)
  from \<open>real g < targetGroups\<close> have "g < nat \<lceil>targetGroups\<rceil>"
    by linarith
  then show ?case by simp
qed

declare total_outer.simps [simp del]

text \<open>
  \<open>targetGroups\<close> is at least 1 here, so the quotient and the remainder are finite; were
  they \<open>NaN\<close>, no comparison of the loops would hold and no link would be set.
\<close>

definition total_links :: "real \<Rightarrow> Segment list \<Rightarrow> (JsError \<times> Segment list) + Segment list" where
  "total_links val raw =
     (let totalSentences = real (length raw);
          targetGroups = min val totalSentences
      in case js_div totalSentences targetGroups of
           None \<Rightarrow> Inr raw
         | Some q \<Rightarrow>
             (case js_rem totalSentences targetGroups of
                None \<Rightarrow> Inr raw
              | Some remainder \<Rightarrow> total_outer raw 0 targetGroups (math_floor q) remainder 0))"

text \<open>Time mode: the loop over all segments but the last, with the running duration.\<close>

fun time_links :: "real \<Rightarrow> real \<Rightarrow> Segment list \<Rightarrow> Segment list" where
  "time_links val groupDuration (seg # nxt # rest) =
     (let groupDuration' = groupDuration + (seg_end seg - seg_start seg)
      in if groupDuration' < val
         then seg\<lparr>linkNext := True\<rparr> # time_links val groupDuration' (nxt # rest)
         else seg # time_links val 0 (nxt # rest))"
| "time_links val groupDuration raw = raw"

text \<open>
  \<open>applyAutoGroup\<close>. On a thrown exception the result is \<open>Inl\<close> with the state left
  behind: the dialog stays open.
\<close>

definition applyAutoGroup :: "App \<Rightarrow> (JsError \<times> App) + App" where
  "applyAutoGroup st =
     (if segments st = [] then Inr st
      else
        let val = max 1 (autoGroupValue st);
            st1 = resetGroupingState st;
            raw = segments st1
        in case autoGroupMode st of
             ModeCount \<Rightarrow>
               Inr (st1\<lparr>segments := count_links val raw, showAutoGroupModal := False\<rparr>)
           | ModeTotal \<Rightarrow>
               (case total_links val raw of
                  Inl (err, raw') \<Rightarrow> Inl (err, st1\<lparr>segments := raw'\<rparr>)
                | Inr raw' \<Rightarrow> Inr (st1\<lparr>segments := raw', showAutoGroupModal := False\<rparr>))
           | ModeTime \<Rightarrow>
               Inr (st1\<lparr>segments := time_links val 0 raw, showAutoGroupModal := False\<rparr>))"

section \<open>Export (App.vue, \<open>buildGroups\<close> and \<open>generateAndDownload\<close>)\<close>

text \<open>\<open>buildGroups\<close>: the \<open>forEach\<close> loop with its two variables \<open>groups\<close> and \<open>current\<close>.\<close>

fun buildGroups_loop ::
  "nat \<Rightarrow> nat \<Rightarrow> Segment list \<Rightarrow> Segment list list \<Rightarrow> Segment list \<Rightarrow> Segment list list" where
  "buildGroups_loop n idx [] groups current = groups"
| "buildGroups_loop n idx (seg # rest) groups current =
     (let current' = (if selected seg then current @ [seg] else current)
      in if (\<not> linkNext seg \<or> int idx = int n - 1) \<and> current' \<noteq> []
         then buildGroups_loop n (idx + 1) rest (groups @ [current']) []
         else buildGroups_loop n (idx + 1) rest groups current')"

definition buildGroups :: "Segment list \<Rightarrow> Segment list list" where
  "buildGroups segs = buildGroups_loop (length segs) 0 segs [] []"

text \<open>
  \<open>TypedArray.prototype.subarray(begin, end)\<close> on integers: a negative index counts from
  the end, and both are clamped to the array.
\<close>

definition relative_index :: "nat \<Rightarrow> int \<Rightarrow> nat" where
  "relative_index len k = (if k < 0 then nat (max (int len + k) 0) else nat (min k (int len)))"

definition subarray :: "real list \<Rightarrow> int \<Rightarrow> int \<Rightarrow> real list" where
  "subarray xs b e =
     (let lo = relative_index (length xs) b; hi = relative_index (length xs) e
      in take (hi - lo) (drop lo xs))"

text \<open>\<open>Array.prototype.join(' ')\<close>.\<close>

fun join_space :: "string list \<Rightarrow> string" where
  "join_space [] = []"
| "join_space [x] = x"
| "join_space (x # y # rest) = x @ '' '' @ join_space (y # rest)"

text \<open>
  What \<open>generateAndDownload\<close> computes for one group before it calls the encoder. The
  file name is the text \<open>ordinal-startTime-endTime.mp3\<close> with both times printed to two
  decimals; the record keeps the three numbers. Reading \<open>group[0].start\<close> of an empty
  group throws a \<open>TypeError\<close>.
\<close>

record ExportEntry =
  ordinal :: nat
  startTime :: real
  endTime :: real
  combinedText :: string
  startSample :: int
  endSample :: int
  channels :: "real list list"

definition export_group :: "AudioBuffer \<Rightarrow> nat \<Rightarrow> Segment list \<Rightarrow> JsError + ExportEntry" where
  "export_group buffer index members =
     (case members of
        [] \<Rightarrow> Inl TypeError
      | first # _ \<Rightarrow>
          let start_time = seg_start first;
              end_time = seg_end (last members);
              start_sample = math_floor (start_time * sampleRate buffer);
              end_sample = math_floor (end_time * sampleRate buffer)
          in Inr \<lparr>ordinal = index + 1,
                  startTime = start_time,
                  endTime = end_time,
                  combinedText = join_space (map seg_text members),
                  startSample = start_sample,
                  endSample = end_sample,
                  channels = map (\<lambda>data. subarray data start_sample end_sample) (channelData buffer)\<rparr>)"

fun export_groups :: "AudioBuffer \<Rightarrow> nat \<Rightarrow> Segment list list \<Rightarrow> JsError + ExportEntry list" where
  "export_groups buffer index [] = Inr []"
| "export_groups buffer index (members # rest) =
     (case export_group buffer index members of
        Inl err \<Rightarrow> Inl err
      | Inr entry \<Rightarrow>
          (case export_groups buffer (index + 1) rest of
             Inl err \<Rightarrow> Inl err
           | Inr entries \<Rightarrow> Inr (entry # entries)))"

text \<open>
  \<open>generateAndDownload\<close> up to the entries handed to the encoder and the archive writer,
  which are outside this model; an exception ends in the \<open>catch\<close> block.
\<close>

definition generateAndDownload :: "App \<Rightarrow> App \<times> ExportEntry list option" where
  "generateAndDownload st =
     (case audioBuffer st of
        None \<Rightarrow> (st\<lparr>status := StatusNeedAudio\<rparr>, None)
      | Some buffer \<Rightarrow>
          (case export_groups buffer 0 (buildGroups (segments st)) of
             Inl err \<Rightarrow> (st\<lparr>isExporting := False, status := StatusExportFailed\<rparr>, None)
           | Inr entries \<Rightarrow> (st\<lparr>isExporting := False, status := StatusExported\<rparr>, Some entries)))"

text \<open>
  The chains of a segment list, as the specification defines a group: the maximal runs
  of consecutive segments in which every segment but the last has \<open>linkNext\<close> set.
\<close>

fun link_chains :: "Segment list \<Rightarrow> Segment list list" where
  "link_chains [] = []"
| "link_chains (seg # rest) =
     (if linkNext seg then
        (case link_chains rest of [] \<Rightarrow> [[seg]] | chain # others \<Rightarrow> (seg # chain) # others)
      else [seg] # link_chains rest)"

section \<open>Example inputs\<close>

definition example_audio :: AudioBuffer where
  "example_audio =
     \<lparr>duration = 5, sampleRate = 2,
      channelData = [[0, 1, 2, 3, 4, 5, 6, 7, 8, 9], [10, 11, 12, 13, 14, 15, 16, 17, 18, 19]]\<rparr>"

definition example_chunks :: "WorkerChunk list" where
  "example_chunks =
     [\<lparr>timestamp_start = 0, timestamp_end = Some 1, chunk_text = '' a''\<rparr>,
      \<lparr>timestamp_start = 1, timestamp_end = Some 3, chunk_text = ''b ''\<rparr>,
      \<lparr>timestamp_start = 3, timestamp_end = None, chunk_text = ''c''\<rparr>]"

definition example_segment :: "nat \<Rightarrow> bool \<Rightarrow> bool \<Rightarrow> Segment" where
  "example_segment k sel link =
     \<lparr>seg_id = int k + 1, seg_start = real k, seg_end = real k + 1,
      seg_text = [char_of (97 + k)], selected = sel, linkNext = link\<rparr>"

text \<open>A state with job 1 active and two segments the user has linked and deselected.\<close>

definition example_app :: App where
  "example_app =
     \<lparr>audioBuffer = Some example_audio,
      segments = [example_segment 0 False True, example_segment 1 False False],
      status = StatusAnalysing, isLoading = True, isExporting = False, selectAll = False,
      showAutoGroupModal = True, autoGroupMode = ModeTime, autoGroupValue = 10,
      activeJobId = 1, processedChunks = 0, totalChunks = 4, isTranscribing = True\<rparr>"

text \<open>Seven segments, some linked and deselected by hand, and a grouping request.\<close>

definition example_grouping :: "AutoGroupMode \<Rightarrow> real \<Rightarrow> App" where
  "example_grouping mode val =
     example_app\<lparr>segments := map (\<lambda>k. example_segment k (even k) (k < 5)) [0..<7],
        autoGroupMode := mode, autoGroupValue := val\<rparr>"

text \<open>
  Five segments in two chains: \<open>a\<close>, \<open>b\<close>, \<open>c\<close> with \<open>b\<close> deselected, and \<open>d\<close>, \<open>e\<close>
  both deselected.
\<close>

definition example_export_segments :: "Segment list" where
  "example_export_segments =
     [example_segment 0 True True, example_segment 1 False True, example_segment 2 True False,
      example_segment 3 False True, example_segment 4 False False]"

section \<open>Group sizes of total mode, as the specification words them\<close>

text \<open>
  \<open>G\<close> clamped to \<open>1..total\<close>, \<open>base = floor(total / G)\<close>, \<open>remainder = total mod G\<close>:
  the first \<open>remainder\<close> groups have \<open>base + 1\<close> members, the others \<open>base\<close>.
\<close>

definition total_group_sizes :: "nat \<Rightarrow> int \<Rightarrow> nat list" where
  "total_group_sizes total_n G =
     (let targetGroups = nat (min (max 1 G) (int total_n));
          base = total_n div targetGroups;
          remainder = total_n mod targetGroups
      in replicate remainder (base + 1) @ replicate (targetGroups - remainder) base)"

text \<open>
  The links of a segment list cut into groups of the given sizes: set on every member of
  a group but its last.
\<close>

definition link_pattern :: "nat list \<Rightarrow> bool list" where
  "link_pattern sizes = concat (map (\<lambda>k. replicate (k - 1) True @ [False]) sizes)"

section \<open>Properties of the chunk estimator\<close>

lemma estimateChunkTotal_refines:
  "estimateChunkTotal c r l s = Some (estimateTotal_spec c r l s)"
  by (simp add: estimateChunkTotal_def estimateTotal_spec_def js_div_def math_ceil_def Let_def)

lemma ceiling_quotient_ge1:
  fixes w c :: real
  assumes "0 < w" and "w < c"
  shows "1 \<le> \<lceil>c / w\<rceil>"
proof -
  from assms have "1 < c / w" by simp
  then show ?thesis by linarith
qed

lemma estimateTotal_spec_small:
  "l \<le> 0 \<or> r * l \<le> 0 \<or> c \<le> r * l \<Longrightarrow> estimateTotal_spec c r l s = 1"
  unfolding estimateTotal_spec_def Let_def by auto

lemma estimateTotal_spec_fallback:
  assumes "0 < l" and "0 < r * l" and "r * l < c" and "r * l - 2 * (r * s) \<le> 0"
  shows "estimateTotal_spec c r l s = \<lceil>c / (r * l)\<rceil>"
proof -
  from assms have "\<not> l \<le> 0" "\<not> r * l \<le> 0" "\<not> c \<le> r * l"
    by simp_all
  with assms(4) show ?thesis
    unfolding estimateTotal_spec_def Let_def by (simp only: if_False if_True simp_thms)
qed

lemma estimateTotal_spec_overlap:
  assumes "0 < l" and "0 < r * l" and "r * l < c" and "0 < r * l - 2 * (r * s)"
  shows "estimateTotal_spec c r l s = max 1 (\<lceil>(c - r * l) / (r * l - 2 * (r * s))\<rceil> + 1)"
proof -
  from assms have "\<not> l \<le> 0" "\<not> r * l \<le> 0" "\<not> c \<le> r * l" "\<not> r * l - 2 * (r * s) \<le> 0"
    by simp_all
  then show ?thesis
    unfolding estimateTotal_spec_def Let_def by (simp only: if_False if_True simp_thms)
qed

lemma estimateTotal_spec_ge1: "1 \<le> estimateTotal_spec c r l s"
proof (cases "l \<le> 0 \<or> r * l \<le> 0 \<or> c \<le> r * l")
  case True
  then have "estimateTotal_spec c r l s = 1"
    by (rule estimateTotal_spec_small)
  then show ?thesis by simp
next
  case False
  then have l: "0 < l" and w: "0 < r * l" and wc: "r * l < c"
    by simp_all
  show ?thesis
  proof (cases "r * l - 2 * (r * s) \<le> 0")
    case True
    from w wc have "1 \<le> \<lceil>c / (r * l)\<rceil>"
      by (rule ceiling_quotient_ge1)
    then show ?thesis
      by (simp only: estimateTotal_spec_fallback [OF l w wc True])
  next
    case False
    then have j: "0 < r * l - 2 * (r * s)" by simp
    show ?thesis
      by (simp only: estimateTotal_spec_overlap [OF l w wc j] max.cobounded1)
  qed
qed

lemma estimateTotal_spec_mono:
  assumes "a \<le> b"
  shows "estimateTotal_spec a r l s \<le> estimateTotal_spec b r l s"
proof (cases "l \<le> 0 \<or> r * l \<le> 0 \<or> a \<le> r * l")
  case True
  then have "estimateTotal_spec a r l s = 1"
    by (rule estimateTotal_spec_small)
  then show ?thesis
    using estimateTotal_spec_ge1 [of b r l s] by simp
next
  case False
  then have l: "0 < l" and w: "0 < r * l" and wa: "r * l < a"
    by simp_all
  from wa assms have wb: "r * l < b" by simp
  show ?thesis
  proof (cases "r * l - 2 * (r * s) \<le> 0")
    case True
    have "a / (r * l) \<le> b / (r * l)"
      using assms w by (simp only: divide_right_mono less_imp_le)
    then have "\<lceil>a / (r * l)\<rceil> \<le> \<lceil>b / (r * l)\<rceil>"
      by (rule ceiling_mono)
    then show ?thesis
      by (simp only: estimateTotal_spec_fallback [OF l w wa True]
          estimateTotal_spec_fallback [OF l w wb True])
  next
    case False
    then have j: "0 < r * l - 2 * (r * s)" by simp
    let ?j = "r * l - 2 * (r * s)"
    from assms have "a - r * l \<le> b - r * l" by simp
    then have "(a - r * l) / ?j \<le> (b - r * l) / ?j"
      using j by (simp only: divide_right_mono less_imp_le)
    then have "\<lceil>(a - r * l) / ?j\<rceil> \<le> \<lceil>(b - r * l) / ?j\<rceil>"
      by (rule ceiling_mono)
    then have "max 1 (\<lceil>(a - r * l) / ?j\<rceil> + 1) \<le> max 1 (\<lceil>(b - r * l) / ?j\<rceil> + 1)"
      by linarith
    then show ?thesis
      by (simp only: estimateTotal_spec_overlap [OF l w wa j]
          estimateTotal_spec_overlap [OF l w wb j])
  qed
qed

text \<open>
  Claim C2. For all arguments the estimator returns an integer that is at least 1, and it
  is the value of the specification's formula: 1 when \<open>chunkLengthSeconds \<le> 0\<close> or
  \<open>window \<le> 0\<close>, 1 when \<open>sampleCount \<le> window\<close>, \<open>ceil(sampleCount / window)\<close>
  when \<open>jump \<le> 0\<close>, and \<open>max(1, ceil((sampleCount - window) / jump) + 1)\<close> otherwise.
\<close>

theorem estimateChunkTotal_formula:
  "estimateChunkTotal sampleCount rate chunkLength strideLength =
     Some (estimateTotal_spec sampleCount rate chunkLength strideLength)
   \<and> 1 \<le> estimateTotal_spec sampleCount rate chunkLength strideLength"
  by (simp only: estimateChunkTotal_refines estimateTotal_spec_ge1 simp_thms)

theorem estimateChunkTotal_formula_witness:
  "estimateChunkTotal 480000 16000 15 5 = Some 4 \<and> estimateTotal_spec 480000 16000 15 5 = 4"
  using estimateChunkTotal_formula [of 480000 16000 15 5]
  by (simp add: estimateTotal_spec_def)

text \<open>
  Claim C8. For a fixed configuration the estimator is monotonic non-decreasing in
  \<open>sampleCount\<close>; at \<open>sampleCount\<close> equal to the window it returns 1, and at
  \<open>sampleCount = 0\<close> it returns 1. It returns a number in every case: no division has
  divisor zero, whatever the configuration.
\<close>

theorem estimateChunkTotal_monotone:
  "(sampleCount \<le> sampleCount' \<longrightarrow>
      (\<exists>m n. estimateChunkTotal sampleCount rate chunkLength strideLength = Some m
         \<and> estimateChunkTotal sampleCount' rate chunkLength strideLength = Some n
         \<and> m \<le> n))
   \<and> estimateChunkTotal (rate * chunkLength) rate chunkLength strideLength = Some 1
   \<and> estimateChunkTotal 0 rate chunkLength strideLength = Some 1"
proof (intro conjI impI)
  assume "sampleCount \<le> sampleCount'"
  then have "estimateTotal_spec sampleCount rate chunkLength strideLength
      \<le> estimateTotal_spec sampleCount' rate chunkLength strideLength"
    by (rule estimateTotal_spec_mono)
  then show "\<exists>m n. estimateChunkTotal sampleCount rate chunkLength strideLength = Some m
      \<and> estimateChunkTotal sampleCount' rate chunkLength strideLength = Some n \<and> m \<le> n"
    by (simp only: estimateChunkTotal_refines) blast
next
  show "estimateChunkTotal (rate * chunkLength) rate chunkLength strideLength = Some 1"
    by (simp add: estimateChunkTotal_refines estimateTotal_spec_small)
next
  have "chunkLength \<le> 0 \<or> rate * chunkLength \<le> 0 \<or> 0 \<le> rate * chunkLength"
    by linarith
  then show "estimateChunkTotal 0 rate chunkLength strideLength = Some 1"
    by (simp add: estimateChunkTotal_refines estimateTotal_spec_small)
qed

theorem estimateChunkTotal_monotone_witness:
  "(320000 :: real) \<le> 480000
   \<and> estimateChunkTotal 320000 16000 15 5 = Some 2
   \<and> estimateChunkTotal 480000 16000 15 5 = Some 4
   \<and> estimateChunkTotal (16000 * 15) 16000 15 5 = Some 1
   \<and> estimateChunkTotal 0 16000 15 5 = Some 1"
  using estimateChunkTotal_monotone [of 320000 480000 16000 15 5]
  by (simp add: estimateChunkTotal_def js_div_def math_ceil_def)

section \<open>Supersession of jobs\<close>

lemma onmessage_other_job: "jobId data \<noteq> activeJobId st \<Longrightarrow> onmessage data st = st"
  by (simp add: onmessage_def)

lemma activeJobId_syncSegmentsFromChunks:
  "activeJobId (syncSegmentsFromChunks chunks st) = activeJobId st"
  by (simp add: syncSegmentsFromChunks_def Let_def)

lemma activeJobId_onmessage: "activeJobId (onmessage data st) = activeJobId st"
  by (cases data) (simp_all add: onmessage_def activeJobId_syncSegmentsFromChunks)

lemma activeJobId_step: "activeJobId st \<le> activeJobId (step e st)"
  by (cases e)
    (simp_all add: upload_begin_def upload_decoded_def upload_submit_def upload_failed_def
      activeJobId_onmessage)

lemma step_stale: "stale k e \<Longrightarrow> k \<le> activeJobId st \<Longrightarrow> step e st = st"
  by (cases e) (simp_all add: onmessage_other_job)

lemma run_without_stale:
  "k \<le> activeJobId st \<Longrightarrow> run (filter (\<lambda>e. \<not> stale k e) es) st = run es st"
proof (induction es arbitrary: st)
  case Nil
  show ?case by simp
next
  case (Cons e es)
  show ?case
  proof (cases "stale k e")
    case True
    with Cons.prems have "step e st = st" by (simp add: step_stale)
    with True Cons show ?thesis by simp
  next
    case False
    from Cons.prems have "k \<le> activeJobId (step e st)"
      using activeJobId_step [of st e] by simp
    with False Cons.IH show ?thesis by simp
  qed
qed

text \<open>
  Claim C1. Once a new job has been submitted (\<open>activeJobId\<close> incremented), a worker
  message of any kind tagged with an older job id leaves the whole state as it is:
  segments, progress counters, status and every other field. This stays so for the rest
  of the run: whatever events follow the submission (further uploads and messages),
  the final state is the one reached with all messages of the older jobs removed.
\<close>

theorem superseded_job_is_silent:
  "(\<forall>data. jobId data \<le> activeJobId st \<longrightarrow>
      onmessage data (upload_submit st) = upload_submit st)
   \<and> (\<forall>es. run es (upload_submit st) =
          run (filter (\<lambda>e. \<not> stale (activeJobId (upload_submit st)) e) es) (upload_submit st))"
proof (intro conjI allI impI)
  fix data
  assume "jobId data \<le> activeJobId st"
  then have "jobId data \<noteq> activeJobId (upload_submit st)"
    by (simp add: upload_submit_def)
  then show "onmessage data (upload_submit st) = upload_submit st"
    by (rule onmessage_other_job)
next
  fix es
  show "run es (upload_submit st) =
      run (filter (\<lambda>e. \<not> stale (activeJobId (upload_submit st)) e) es) (upload_submit st)"
    by (simp add: run_without_stale)
qed

theorem superseded_job_is_silent_witness:
  "jobId (MsgDone 1 example_chunks) \<le> activeJobId example_app
   \<and> onmessage (MsgDone 1 example_chunks) (upload_submit example_app) = upload_submit example_app
   \<and> run [Message (MsgPartial 1 1 4 example_chunks), Message (MsgProgress 2 1 4),
          Message (MsgError 1 ''failed'')] (upload_submit example_app)
      = run [Message (MsgProgress 2 1 4)] (upload_submit example_app)"
  using superseded_job_is_silent [of example_app]
  by (simp add: example_app_def upload_submit_def onmessage_def)

section \<open>Replacing the segment list\<close>

lemma nth_segment_of_chunk:
  "i < length chunks \<Longrightarrow>
   segment_of_chunk d (enumerate 0 chunks ! i) =
     \<lparr>seg_id = int i + 1, seg_start = timestamp_start (chunks ! i),
      seg_end = (case timestamp_end (chunks ! i) of Some e \<Rightarrow> e | None \<Rightarrow> d),
      seg_text = trim (chunk_text (chunks ! i)), selected = True, linkNext = False\<rparr>"
  by (simp add: segment_of_chunk_def nth_enumerate_eq)

lemma segments_onmessage_partial:
  "j = activeJobId st \<Longrightarrow>
   segments (onmessage (MsgPartial j p t chunks) st) =
     map (segment_of_chunk (case audioBuffer st of Some b \<Rightarrow> duration b | None \<Rightarrow> 0)) (enumerate 0 chunks)"
  by (simp add: onmessage_def syncSegmentsFromChunks_def Let_def)

lemma segments_onmessage_done:
  "j = activeJobId st \<Longrightarrow>
   segments (onmessage (MsgDone j chunks) st) =
     map (segment_of_chunk (case audioBuffer st of Some b \<Rightarrow> duration b | None \<Rightarrow> 0)) (enumerate 0 chunks)"
  by (simp add: onmessage_def syncSegmentsFromChunks_def Let_def)

text \<open>
  Claim C6. A \<open>partial\<close> or \<open>done\<close> message of the active job replaces the segment
  list by one built from the message alone: one segment per chunk, ids 1, 2, ... by
  position, every segment selected and not linked, whatever the list was before; a
  segment whose chunk has no end timestamp, the last one in particular, ends at the
  duration of the loaded audio.
\<close>

theorem segments_replaced_wholesale:
  assumes active: "jobId data = activeJobId st"
    and kind: "data = MsgPartial j p t chunks \<or> data = MsgDone j chunks"
    and audio: "audioBuffer st = Some buffer"
  shows "length (segments (onmessage data st)) = length chunks
    \<and> (\<forall>i<length chunks.
          seg_id (segments (onmessage data st) ! i) = int i + 1
        \<and> selected (segments (onmessage data st) ! i)
        \<and> \<not> linkNext (segments (onmessage data st) ! i)
        \<and> seg_start (segments (onmessage data st) ! i) = timestamp_start (chunks ! i)
        \<and> seg_end (segments (onmessage data st) ! i) =
            (case timestamp_end (chunks ! i) of Some e \<Rightarrow> e | None \<Rightarrow> duration buffer))
    \<and> (chunks \<noteq> [] \<and> timestamp_end (last chunks) = None \<longrightarrow>
          seg_end (last (segments (onmessage data st))) = duration buffer)
    \<and> (\<forall>previous. segments (onmessage data (st\<lparr>segments := previous\<rparr>)) =
          segments (onmessage data st))"
proof -
  let ?new = "map (segment_of_chunk (duration buffer)) (enumerate 0 chunks)"
  from active kind have j: "j = activeJobId st" by auto
  have seg: "segments (onmessage data (st\<lparr>segments := previous\<rparr>)) = ?new" for previous
    using kind j audio
    by (auto simp: segments_onmessage_partial segments_onmessage_done)
  from seg [of "segments st"] have cur: "segments (onmessage data st) = ?new" by simp
  have len: "length ?new = length chunks" by simp
  have nth: "\<forall>i<length chunks.
          seg_id (?new ! i) = int i + 1
        \<and> selected (?new ! i)
        \<and> \<not> linkNext (?new ! i)
        \<and> seg_start (?new ! i) = timestamp_start (chunks ! i)
        \<and> seg_end (?new ! i) =
            (case timestamp_end (chunks ! i) of Some e \<Rightarrow> e | None \<Rightarrow> duration buffer)"
    by (simp add: nth_segment_of_chunk)
  have lst: "seg_end (last ?new) = duration buffer"
    if "chunks \<noteq> []" "timestamp_end (last chunks) = None"
  proof -
    from that(1) have i: "length chunks - 1 < length chunks" by simp
    from that(1) len have "?new \<noteq> []" by (metis length_0_conv)
    then have "last ?new = ?new ! (length ?new - 1)"
      by (rule last_conv_nth)
    also have "\<dots> = segment_of_chunk (duration buffer) (enumerate 0 chunks ! (length chunks - 1))"
      using i by simp
    finally show ?thesis
      using that by (simp add: nth_segment_of_chunk last_conv_nth)
  qed
  show ?thesis
    unfolding cur seg using len nth lst by blast
qed

theorem segments_replaced_wholesale_witness:
  "jobId (MsgDone 1 example_chunks) = activeJobId example_app
   \<and> audioBuffer example_app = Some example_audio
   \<and> map linkNext (segments example_app) = [True, False]
   \<and> map seg_id (segments (onmessage (MsgDone 1 example_chunks) example_app)) = [1, 2, 3]
   \<and> map selected (segments (onmessage (MsgDone 1 example_chunks) example_app)) = [True, True, True]
   \<and> map linkNext (segments (onmessage (MsgDone 1 example_chunks) example_app)) = [False, False, False]
   \<and> map seg_end (segments (onmessage (MsgDone 1 example_chunks) example_app)) = [1, 3, 5]"
  using segments_replaced_wholesale
    [of "MsgDone 1 example_chunks" example_app 1 0 0 example_chunks example_audio]
  by (simp add: example_app_def example_chunks_def example_audio_def example_segment_def
      onmessage_def syncSegmentsFromChunks_def segment_of_chunk_def enumerate_eq_zip upt_rec)

section \<open>Count mode\<close>

lemma js_rem_of_int:
  assumes "0 \<le> a" and "0 < b"
  shows "js_rem (real_of_int a) (real_of_int b) = Some (real_of_int (a mod b))"
proof -
  from assms have "0 \<le> real_of_int a / real_of_int b" by simp
  then have "js_trunc (real_of_int a / real_of_int b) = \<lfloor>real_of_int a / real_of_int b\<rfloor>"
    by (simp add: js_trunc_def)
  also have "\<dots> = a div b"
    by (rule floor_divide_of_int_eq)
  finally have t: "js_trunc (real_of_int a / real_of_int b) = a div b" .
  have "a - b * (a div b) = a mod b"
    by (simp add: minus_mult_div_eq_mod)
  then have "real_of_int a - real_of_int b * real_of_int (a div b) = real_of_int (a mod b)"
    by (metis of_int_diff of_int_mult)
  with assms t show ?thesis
    by (simp add: js_rem_def)
qed

lemma length_count_links: "length (count_links val raw) = length raw"
  by (simp add: count_links_def)

lemma nth_count_links:
  "i < length raw \<Longrightarrow>
   count_links val raw ! i =
     (if js_rem (real i + 1) val \<noteq> Some 0 \<and> int i < int (length raw) - 1
      then (raw ! i)\<lparr>linkNext := True\<rparr> else raw ! i)"
  by (simp add: count_links_def count_link_def nth_enumerate_eq)

lemma segments_resetGroupingState:
  "segments (resetGroupingState st) = map (\<lambda>s. s\<lparr>linkNext := False, selected := True\<rparr>) (segments st)"
  by (simp add: resetGroupingState_def)

lemma applyAutoGroup_count:
  assumes "segments st \<noteq> []" and "autoGroupMode st = ModeCount"
  shows "applyAutoGroup st =
    Inr ((resetGroupingState st)\<lparr>segments := count_links (max 1 (autoGroupValue st)) (segments (resetGroupingState st)),
       showAutoGroupModal := False\<rparr>)"
  using assms by (simp add: applyAutoGroup_def Let_def)

text \<open>
  Claim C5. In count mode with an integer parameter \<open>N\<close> (taken as 1 when smaller) on a
  non-empty segment list, the grouper succeeds, and afterwards the segment at index
  \<open>i\<close> is linked to the next one exactly when \<open>(i + 1) mod N \<noteq> 0\<close> and \<open>i\<close> is not the
  last index. With \<open>N = 3\<close> and seven segments the links are at indices 0, 1, 3, 4 and
  the groups have sizes 3, 3, 1.
\<close>

theorem count_mode_links:
  assumes nonempty: "segments st \<noteq> []"
    and mode: "autoGroupMode st = ModeCount"
    and val: "autoGroupValue st = real_of_int N"
  shows "\<exists>st'. applyAutoGroup st = Inr st'
    \<and> length (segments st') = length (segments st)
    \<and> (\<forall>i<length (segments st).
          linkNext (segments st' ! i) \<longleftrightarrow>
            (int i + 1) mod max 1 N \<noteq> 0 \<and> i \<noteq> length (segments st) - 1)"
proof -
  let ?raw = "segments (resetGroupingState st)"
  let ?st' = "(resetGroupingState st)\<lparr>segments := count_links (max 1 (autoGroupValue st)) ?raw,
       showAutoGroupModal := False\<rparr>"
  have run: "applyAutoGroup st = Inr ?st'"
    using nonempty mode by (rule applyAutoGroup_count)
  have len: "length ?raw = length (segments st)"
    by (simp add: segments_resetGroupingState)
  have v: "max 1 (autoGroupValue st) = real_of_int (max 1 N)"
    by (simp add: val)
  have link: "linkNext (segments ?st' ! i) \<longleftrightarrow>
      (int i + 1) mod max 1 N \<noteq> 0 \<and> i \<noteq> length (segments st) - 1"
    if i: "i < length (segments st)" for i
  proof -
    have "real i + 1 = real_of_int (int i + 1)" by simp
    then have r: "js_rem (real i + 1) (real_of_int (max 1 N)) = Some (real_of_int ((int i + 1) mod max 1 N))"
      using js_rem_of_int [of "int i + 1" "max 1 N"] by simp
    have off: "\<not> linkNext (?raw ! i)"
      using i by (simp add: segments_resetGroupingState)
    from i have last: "int i < int (length (segments st)) - 1 \<longleftrightarrow> i \<noteq> length (segments st) - 1"
      by linarith
    from i len have "segments ?st' ! i =
        (if js_rem (real i + 1) (real_of_int (max 1 N)) \<noteq> Some 0 \<and> int i < int (length ?raw) - 1
         then (?raw ! i)\<lparr>linkNext := True\<rparr> else ?raw ! i)"
      by (simp add: nth_count_links v)
    with off last show ?thesis
      by (simp add: r len)
  qed
  from run len link show ?thesis
    by (intro exI [of _ ?st']) (simp add: length_count_links)
qed

theorem count_mode_links_witness:
  "segments (example_grouping ModeCount 3) \<noteq> []
   \<and> autoGroupMode (example_grouping ModeCount 3) = ModeCount
   \<and> autoGroupValue (example_grouping ModeCount 3) = real_of_int 3
   \<and> (\<exists>st'. applyAutoGroup (example_grouping ModeCount 3) = Inr st'
        \<and> map linkNext (segments st') = [True, True, False, True, True, False, False]
        \<and> map length (buildGroups (segments st')) = [3, 3, 1])"
proof -
  have hyps: "segments (example_grouping ModeCount 3) \<noteq> []
      \<and> autoGroupMode (example_grouping ModeCount 3) = ModeCount
      \<and> autoGroupValue (example_grouping ModeCount 3) = real_of_int 3"
    by (simp add: example_grouping_def example_app_def)
  have vals: "(case applyAutoGroup (example_grouping ModeCount 3) of
        Inl err \<Rightarrow> False
      | Inr st' \<Rightarrow> map linkNext (segments st') = [True, True, False, True, True, False, False]
          \<and> map length (buildGroups (segments st')) = [3, 3, 1])"
    by code_simp
  from hyps count_mode_links [of "example_grouping ModeCount 3" 3]
  obtain st' where "applyAutoGroup (example_grouping ModeCount 3) = Inr st'"
    by blast
  with vals hyps show ?thesis by simp
qed

section \<open>Groups and export\<close>

lemma link_chains_Nil_iff: "link_chains segs = [] \<longleftrightarrow> segs = []"
  by (cases segs) (auto split: list.splits)

lemma buildGroups_loop_chains:
  assumes "idx + length rest = n" and "rest \<noteq> []"
  shows "buildGroups_loop n idx rest groups current =
    groups @ filter (\<lambda>g. g \<noteq> [])
      ((current @ hd (map (filter selected) (link_chains rest))) # tl (map (filter selected) (link_chains rest)))"
  using assms
proof (induction rest arbitrary: idx groups current)
  case Nil
  then show ?case by simp
next
  case (Cons seg rest)
  show ?case
  proof (cases "rest = []")
    case True
    with Cons.prems have "int idx = int n - 1" by simp
    with True show ?thesis by simp
  next
    case False
    then have pos: "length rest \<noteq> 0" by simp
    from Cons.prems have len: "idx + (1 + length rest) = n" by simp
    from pos len have idx: "int idx \<noteq> int n - 1" by linarith
    from len have nxt: "Suc idx + length rest = n" by linarith
    from False obtain chain others where ch: "link_chains rest = chain # others"
      by (cases "link_chains rest") (simp_all add: link_chains_Nil_iff)
    note IH = Cons.IH [OF nxt False]
    show ?thesis
    proof (cases "linkNext seg")
      case True
      with idx ch show ?thesis
        by (simp add: IH ch)
    next
      case False
      with idx ch show ?thesis
        by (simp add: IH ch)
    qed
  qed
qed

lemma buildGroups_chains:
  "buildGroups segs = filter (\<lambda>g. g \<noteq> []) (map (filter selected) (link_chains segs))"
proof (cases "segs = []")
  case True
  then show ?thesis by (simp add: buildGroups_def)
next
  case False
  then obtain chain others where ch: "link_chains segs = chain # others"
    by (cases "link_chains segs") (simp_all add: link_chains_Nil_iff)
  from False have "buildGroups segs =
      [] @ filter (\<lambda>g. g \<noteq> [])
        (([] @ hd (map (filter selected) (link_chains segs))) # tl (map (filter selected) (link_chains segs)))"
    unfolding buildGroups_def by (intro buildGroups_loop_chains) simp_all
  with ch show ?thesis by simp
qed

lemma concat_link_chains: "concat (link_chains segs) = segs"
  by (induction segs) (auto split: list.splits)

lemma link_chains_nonempty: "[] \<notin> set (link_chains segs)"
  by (induction segs) (auto split: list.splits)

lemma link_chains_linked:
  "c \<in> set (link_chains segs) \<Longrightarrow> s \<in> set (butlast c) \<Longrightarrow> linkNext s"
proof (induction segs arbitrary: c)
  case Nil
  then show ?case by simp
next
  case (Cons seg rest)
  show ?case
  proof (cases "linkNext seg")
    case False
    with Cons.prems have "c = [seg] \<or> c \<in> set (link_chains rest)" by simp
    with Cons.IH Cons.prems(2) show ?thesis by auto
  next
    case True
    show ?thesis
    proof (cases "link_chains rest")
      case Nil
      with True Cons.prems show ?thesis by simp
    next
      case rest_chains: (Cons chain others)
      with True Cons.prems(1) have "c = seg # chain \<or> c \<in> set others" by simp
      then show ?thesis
      proof
        assume c: "c = seg # chain"
        from rest_chains link_chains_nonempty [of rest] have "chain \<noteq> []" by auto
        with c Cons.prems(2) have "s = seg \<or> s \<in> set (butlast chain)" by simp
        with True rest_chains Cons.IH [of chain] show ?thesis by auto
      next
        assume "c \<in> set others"
        with rest_chains Cons.IH [of c] Cons.prems(2) show ?thesis by simp
      qed
    qed
  qed
qed

lemma link_chains_broken:
  "c \<in> set (butlast (link_chains segs)) \<Longrightarrow> \<not> linkNext (last c)"
proof (induction segs arbitrary: c)
  case Nil
  then show ?case by simp
next
  case (Cons seg rest)
  show ?case
  proof (cases "link_chains rest")
    case Nil
    with Cons.prems show ?thesis by (simp split: if_splits)
  next
    case rest_chains: (Cons chain others)
    from rest_chains link_chains_nonempty [of rest] have ne: "chain \<noteq> []" by auto
    show ?thesis
    proof (cases "linkNext seg")
      case True
      with rest_chains Cons.prems have "c \<in> set (butlast ((seg # chain) # others))" by simp
      then have "(c = seg # chain \<and> others \<noteq> []) \<or> c \<in> set (butlast others)"
        by (auto split: if_splits)
      then show ?thesis
      proof
        assume c: "c = seg # chain \<and> others \<noteq> []"
        with rest_chains have "chain \<in> set (butlast (link_chains rest))" by simp
        then have "\<not> linkNext (last chain)" by (rule Cons.IH)
        with c ne show ?thesis by simp
      next
        assume "c \<in> set (butlast others)"
        with rest_chains have "c \<in> set (butlast (link_chains rest))" by (auto split: if_splits)
        then show ?thesis by (rule Cons.IH)
      qed
    next
      case False
      with rest_chains Cons.prems have "c = [seg] \<or> c \<in> set (butlast (link_chains rest))"
        by simp
      with False Cons.IH [of c] show ?thesis by auto
    qed
  qed
qed

lemma export_group_Inr:
  "members \<noteq> [] \<Longrightarrow>
   export_group buffer index members =
     Inr \<lparr>ordinal = index + 1,
          startTime = seg_start (hd members),
          endTime = seg_end (last members),
          combinedText = join_space (map seg_text members),
          startSample = \<lfloor>seg_start (hd members) * sampleRate buffer\<rfloor>,
          endSample = \<lfloor>seg_end (last members) * sampleRate buffer\<rfloor>,
          channels = map (\<lambda>data. subarray data \<lfloor>seg_start (hd members) * sampleRate buffer\<rfloor>
              \<lfloor>seg_end (last members) * sampleRate buffer\<rfloor>) (channelData buffer)\<rparr>"
  by (cases members) (simp_all add: export_group_def math_floor_def Let_def)

lemma export_groups_Inr:
  "[] \<notin> set groups \<Longrightarrow>
   \<exists>entries. export_groups buffer index groups = Inr entries
     \<and> length entries = length groups
     \<and> (\<forall>i<length groups.
          ordinal (entries ! i) = index + i + 1
        \<and> startTime (entries ! i) = seg_start (hd (groups ! i))
        \<and> endTime (entries ! i) = seg_end (last (groups ! i))
        \<and> combinedText (entries ! i) = join_space (map seg_text (groups ! i))
        \<and> startSample (entries ! i) = \<lfloor>startTime (entries ! i) * sampleRate buffer\<rfloor>
        \<and> endSample (entries ! i) = \<lfloor>endTime (entries ! i) * sampleRate buffer\<rfloor>
        \<and> channels (entries ! i) =
            map (\<lambda>data. subarray data (startSample (entries ! i)) (endSample (entries ! i)))
              (channelData buffer))"
proof (induction groups arbitrary: index)
  case Nil
  show ?case by simp
next
  case (Cons members rest)
  then have ne: "members \<noteq> []" and rest: "[] \<notin> set rest" by auto
  from Cons.IH [OF rest, of "index + 1"] obtain entries where
    run: "export_groups buffer (index + 1) rest = Inr entries"
    and len: "length entries = length rest"
    and nth: "\<forall>i<length rest.
          ordinal (entries ! i) = index + 1 + i + 1
        \<and> startTime (entries ! i) = seg_start (hd (rest ! i))
        \<and> endTime (entries ! i) = seg_end (last (rest ! i))
        \<and> combinedText (entries ! i) = join_space (map seg_text (rest ! i))
        \<and> startSample (entries ! i) = \<lfloor>startTime (entries ! i) * sampleRate buffer\<rfloor>
        \<and> endSample (entries ! i) = \<lfloor>endTime (entries ! i) * sampleRate buffer\<rfloor>
        \<and> channels (entries ! i) =
            map (\<lambda>data. subarray data (startSample (entries ! i)) (endSample (entries ! i)))
              (channelData buffer)"
    by blast
  let ?entry = "\<lparr>ordinal = index + 1,
          startTime = seg_start (hd members),
          endTime = seg_end (last members),
          combinedText = join_space (map seg_text members),
          startSample = \<lfloor>seg_start (hd members) * sampleRate buffer\<rfloor>,
          endSample = \<lfloor>seg_end (last members) * sampleRate buffer\<rfloor>,
          channels = map (\<lambda>data. subarray data \<lfloor>seg_start (hd members) * sampleRate buffer\<rfloor>
              \<lfloor>seg_end (last members) * sampleRate buffer\<rfloor>) (channelData buffer)\<rparr>"
  have "export_groups buffer index (members # rest) = Inr (?entry # entries)"
    using run by (simp add: export_group_Inr [OF ne])
  moreover have "length (?entry # entries) = length (members # rest)"
    using len by simp
  moreover have "\<forall>i<length (members # rest).
          ordinal ((?entry # entries) ! i) = index + i + 1
        \<and> startTime ((?entry # entries) ! i) = seg_start (hd ((members # rest) ! i))
        \<and> endTime ((?entry # entries) ! i) = seg_end (last ((members # rest) ! i))
        \<and> combinedText ((?entry # entries) ! i) = join_space (map seg_text ((members # rest) ! i))
        \<and> startSample ((?entry # entries) ! i) = \<lfloor>startTime ((?entry # entries) ! i) * sampleRate buffer\<rfloor>
        \<and> endSample ((?entry # entries) ! i) = \<lfloor>endTime ((?entry # entries) ! i) * sampleRate buffer\<rfloor>
        \<and> channels ((?entry # entries) ! i) =
            map (\<lambda>data. subarray data (startSample ((?entry # entries) ! i)) (endSample ((?entry # entries) ! i)))
              (channelData buffer)"
  proof (intro allI impI)
    fix i
    assume "i < length (members # rest)"
    then show "ordinal ((?entry # entries) ! i) = index + i + 1
        \<and> startTime ((?entry # entries) ! i) = seg_start (hd ((members # rest) ! i))
        \<and> endTime ((?entry # entries) ! i) = seg_end (last ((members # rest) ! i))
        \<and> combinedText ((?entry # entries) ! i) = join_space (map seg_text ((members # rest) ! i))
        \<and> startSample ((?entry # entries) ! i) = \<lfloor>startTime ((?entry # entries) ! i) * sampleRate buffer\<rfloor>
        \<and> endSample ((?entry # entries) ! i) = \<lfloor>endTime ((?entry # entries) ! i) * sampleRate buffer\<rfloor>
        \<and> channels ((?entry # entries) ! i) =
            map (\<lambda>data. subarray data (startSample ((?entry # entries) ! i)) (endSample ((?entry # entries) ! i)))
              (channelData buffer)"
      using nth by (cases i) simp_all
  qed
  ultimately show ?case by blast
qed

lemma buildGroups_no_empty: "[] \<notin> set (buildGroups segs)"
  by (simp add: buildGroups_chains)

lemma filter_nonempty_selected:
  "filter (\<lambda>g. g \<noteq> []) (map (filter selected) cs) =
   map (filter selected) (filter (\<lambda>c. \<exists>s\<in>set c. selected s) cs)"
  by (induction cs) (auto simp: filter_empty_conv)

text \<open>
  Claim C3, as the code has it. The groups are the chains of the segment list (the
  maximal runs joined by \<open>linkNext\<close>), each reduced to its selected segments, the chains
  left with none dropped. For each group the export takes the start time of its first
  member, the end time of its last member, and the members' texts joined by single
  spaces in segment order; the audio of the group is, on every channel, the one
  contiguous slice of samples from \<open>floor(start * sampleRate)\<close> to
  \<open>floor(end * sampleRate)\<close>. An unselected segment is thus left out of the text, and
  out of the audio only where it lies outside that span.
\<close>

theorem export_groups_of_chains:
  "buildGroups segs = filter (\<lambda>g. g \<noteq> []) (map (filter selected) (link_chains segs))
   \<and> concat (link_chains segs) = segs
   \<and> (\<forall>c\<in>set (link_chains segs). c \<noteq> [] \<and> (\<forall>s\<in>set (butlast c). linkNext s))
   \<and> (\<forall>c\<in>set (butlast (link_chains segs)). \<not> linkNext (last c))
   \<and> (\<exists>entries. export_groups buffer 0 (buildGroups segs) = Inr entries
        \<and> length entries = length (buildGroups segs)
        \<and> (\<forall>i<length (buildGroups segs).
              ordinal (entries ! i) = i + 1
            \<and> startTime (entries ! i) = seg_start (hd (buildGroups segs ! i))
            \<and> endTime (entries ! i) = seg_end (last (buildGroups segs ! i))
            \<and> combinedText (entries ! i) = join_space (map seg_text (buildGroups segs ! i))
            \<and> startSample (entries ! i) = \<lfloor>startTime (entries ! i) * sampleRate buffer\<rfloor>
            \<and> endSample (entries ! i) = \<lfloor>endTime (entries ! i) * sampleRate buffer\<rfloor>
            \<and> channels (entries ! i) =
                map (\<lambda>data. subarray data (startSample (entries ! i)) (endSample (entries ! i)))
                  (channelData buffer)))"
proof (intro conjI)
  show "buildGroups segs = filter (\<lambda>g. g \<noteq> []) (map (filter selected) (link_chains segs))"
    by (rule buildGroups_chains)
  show "concat (link_chains segs) = segs"
    by (rule concat_link_chains)
  show "\<forall>c\<in>set (link_chains segs). c \<noteq> [] \<and> (\<forall>s\<in>set (butlast c). linkNext s)"
    using link_chains_nonempty [of segs] link_chains_linked [of _ segs] by blast
  show "\<forall>c\<in>set (butlast (link_chains segs)). \<not> linkNext (last c)"
    using link_chains_broken [of _ segs] by blast
  from export_groups_Inr [OF buildGroups_no_empty, of buffer 0 segs]
  show "\<exists>entries. export_groups buffer 0 (buildGroups segs) = Inr entries
        \<and> length entries = length (buildGroups segs)
        \<and> (\<forall>i<length (buildGroups segs).
              ordinal (entries ! i) = i + 1
            \<and> startTime (entries ! i) = seg_start (hd (buildGroups segs ! i))
            \<and> endTime (entries ! i) = seg_end (last (buildGroups segs ! i))
            \<and> combinedText (entries ! i) = join_space (map seg_text (buildGroups segs ! i))
            \<and> startSample (entries ! i) = \<lfloor>startTime (entries ! i) * sampleRate buffer\<rfloor>
            \<and> endSample (entries ! i) = \<lfloor>endTime (entries ! i) * sampleRate buffer\<rfloor>
            \<and> channels (entries ! i) =
                map (\<lambda>data. subarray data (startSample (entries ! i)) (endSample (entries ! i)))
                  (channelData buffer))"
    by simp
qed

theorem export_groups_of_chains_witness:
  "link_chains example_export_segments =
     [[example_segment 0 True True, example_segment 1 False True, example_segment 2 True False],
      [example_segment 3 False True, example_segment 4 False False]]
   \<and> buildGroups example_export_segments =
       [[example_segment 0 True True, example_segment 2 True False]]
   \<and> (\<exists>entries. export_groups example_audio 0 (buildGroups example_export_segments) = Inr entries
        \<and> map startTime entries = [0] \<and> map endTime entries = [3]
        \<and> map combinedText entries = [''a c''])"
proof -
  have runs: "link_chains example_export_segments =
     [[example_segment 0 True True, example_segment 1 False True, example_segment 2 True False],
      [example_segment 3 False True, example_segment 4 False False]]"
    by code_simp
  have groups: "buildGroups example_export_segments =
       [[example_segment 0 True True, example_segment 2 True False]]"
    by code_simp
  from export_groups_of_chains [of example_export_segments example_audio]
  obtain entries where
    run: "export_groups example_audio 0 (buildGroups example_export_segments) = Inr entries"
    and len: "length entries = length (buildGroups example_export_segments)"
    and nth: "\<forall>i<length (buildGroups example_export_segments).
        startTime (entries ! i) = seg_start (hd (buildGroups example_export_segments ! i))
      \<and> endTime (entries ! i) = seg_end (last (buildGroups example_export_segments ! i))
      \<and> combinedText (entries ! i) =
          join_space (map seg_text (buildGroups example_export_segments ! i))"
    by blast
  from len groups obtain e where e: "entries = [e]"
    by (cases entries) simp_all
  have joined: "join_space (map seg_text [example_segment 0 True True, example_segment 2 True False]) = ''a c''"
    by code_simp
  from nth groups e joined have "startTime e = 0 \<and> endTime e = 3 \<and> combinedText e = ''a c''"
    by (simp add: example_segment_def)
  with runs groups run e show ?thesis by simp
qed

text \<open>
  Claim C3 as stated fails on the audio. In the chain \<open>a\<close>, \<open>b\<close>, \<open>c\<close> with \<open>b\<close>
  deselected the text of the group is \<open>a c\<close>, but the exported samples are those of
  seconds 0 to 3 on both channels, and they contain the samples of \<open>b\<close> (seconds 1 to 2:
  2, 3 on the first channel and 12, 13 on the second).
\<close>

theorem unselected_audio_is_exported:
  "export_groups example_audio 0 (buildGroups example_export_segments) =
     Inr [\<lparr>ordinal = 1, startTime = 0, endTime = 3, combinedText = ''a c'',
           startSample = 0, endSample = 6,
           channels = [[0, 1, 2, 3, 4, 5], [10, 11, 12, 13, 14, 15]]\<rparr>]
   \<and> example_export_segments ! 1 = example_segment 1 False True
   \<and> subarray (channelData example_audio ! 0)
        \<lfloor>seg_start (example_export_segments ! 1) * sampleRate example_audio\<rfloor>
        \<lfloor>seg_end (example_export_segments ! 1) * sampleRate example_audio\<rfloor> = [2, 3]
   \<and> subarray (channelData example_audio ! 1)
        \<lfloor>seg_start (example_export_segments ! 1) * sampleRate example_audio\<rfloor>
        \<lfloor>seg_end (example_export_segments ! 1) * sampleRate example_audio\<rfloor> = [12, 13]"
  by code_simp

text \<open>
  Claim C9. Every group that \<open>buildGroups\<close> returns is non-empty and holds selected
  segments only. A chain without a selected segment gives no group: the groups are
  the chains that have a selected segment, one group for each, in order. So the export
  never fails on an empty group and makes one entry (one audio file and one transcript
  line) for each such chain, and none at all when nothing is selected.
\<close>

theorem buildGroups_groups_nonempty:
  "(\<forall>g\<in>set (buildGroups segs). g \<noteq> [] \<and> (\<forall>s\<in>set g. selected s))
   \<and> buildGroups segs =
       map (filter selected) (filter (\<lambda>c. \<exists>s\<in>set c. selected s) (link_chains segs))
   \<and> (\<exists>entries. export_groups buffer 0 (buildGroups segs) = Inr entries
         \<and> length entries = length (filter (\<lambda>c. \<exists>s\<in>set c. selected s) (link_chains segs))
         \<and> (\<forall>st. audioBuffer st = Some buffer \<and> segments st = segs \<longrightarrow>
               snd (generateAndDownload st) = Some entries))
   \<and> ((\<forall>s\<in>set segs. \<not> selected s) \<longrightarrow> buildGroups segs = [])"
proof (intro conjI)
  show "\<forall>g\<in>set (buildGroups segs). g \<noteq> [] \<and> (\<forall>s\<in>set g. selected s)"
    by (auto simp: buildGroups_chains)
  show eq: "buildGroups segs =
      map (filter selected) (filter (\<lambda>c. \<exists>s\<in>set c. selected s) (link_chains segs))"
    by (simp only: buildGroups_chains filter_nonempty_selected)
  from export_groups_Inr [OF buildGroups_no_empty, of buffer 0 segs]
  obtain entries where run: "export_groups buffer 0 (buildGroups segs) = Inr entries"
    and len: "length entries = length (buildGroups segs)"
    by blast
  from run have "snd (generateAndDownload st) = Some entries"
    if "audioBuffer st = Some buffer \<and> segments st = segs" for st
    using that by (simp add: generateAndDownload_def)
  then have "\<forall>st. audioBuffer st = Some buffer \<and> segments st = segs \<longrightarrow>
      snd (generateAndDownload st) = Some entries"
    by blast
  moreover from len have "length entries =
      length (filter (\<lambda>c. \<exists>s\<in>set c. selected s) (link_chains segs))"
    by (simp add: eq)
  ultimately show "\<exists>entries. export_groups buffer 0 (buildGroups segs) = Inr entries
      \<and> length entries = length (filter (\<lambda>c. \<exists>s\<in>set c. selected s) (link_chains segs))
      \<and> (\<forall>st. audioBuffer st = Some buffer \<and> segments st = segs \<longrightarrow>
            snd (generateAndDownload st) = Some entries)"
    using run by blast
  show "(\<forall>s\<in>set segs. \<not> selected s) \<longrightarrow> buildGroups segs = []"
  proof
    assume none: "\<forall>s\<in>set segs. \<not> selected s"
    have "set c \<subseteq> set segs" if "c \<in> set (link_chains segs)" for c
      using that concat_link_chains [of segs] by (metis Sup_upper image_eqI set_concat)
    with none have "filter (\<lambda>c. \<exists>s\<in>set c. selected s) (link_chains segs) = []"
      by (auto simp: filter_empty_conv)
    with eq show "buildGroups segs = []" by simp
  qed
qed

theorem buildGroups_groups_nonempty_witness:
  "buildGroups example_export_segments =
     [[example_segment 0 True True, example_segment 2 True False]]
   \<and> filter (\<lambda>c. \<exists>s\<in>set c. selected s) (link_chains example_export_segments) =
       [[example_segment 0 True True, example_segment 1 False True, example_segment 2 True False]]
   \<and> (\<exists>entries. export_groups example_audio 0 (buildGroups example_export_segments) = Inr entries
        \<and> length entries = 1)"
proof -
  have groups: "buildGroups example_export_segments =
       [[example_segment 0 True True, example_segment 2 True False]]"
    by code_simp
  have kept: "filter (\<lambda>c. \<exists>s\<in>set c. selected s) (link_chains example_export_segments) =
       [[example_segment 0 True True, example_segment 1 False True, example_segment 2 True False]]"
    by code_simp
  from buildGroups_groups_nonempty [of example_export_segments example_audio]
  obtain entries where
    run: "export_groups example_audio 0 (buildGroups example_export_segments) = Inr entries"
    and len: "length entries =
      length (filter (\<lambda>c. \<exists>s\<in>set c. selected s) (link_chains example_export_segments))"
    by blast
  from len have "length entries = 1"
    by (simp only: kept list.size)
  with run have "\<exists>entries. export_groups example_audio 0 (buildGroups example_export_segments) = Inr entries
        \<and> length entries = 1"
    by blast
  with groups kept show ?thesis
    by (intro conjI)
qed

section \<open>Properties of the resampler\<close>

lemma typed_at_Some: "0 \<le> i \<Longrightarrow> i < int (length xs) \<Longrightarrow> typed_at xs i = Some (xs ! nat i)"
  by (simp add: typed_at_def)

lemma resampleToRate_same: "resampleToRate input rate rate = Some (map Some input)"
  by (simp add: resampleToRate_def)

lemma resampleToRate_other:
  assumes "s \<noteq> t" and "s \<noteq> 0"
  shows "resampleToRate input s t =
    Some (map (resample_at input (t / s)) [0..<nat (max 1 (round (real (length input) * (t / s))))])"
  using assms by (simp add: resampleToRate_def js_div_def math_round_def round_def Let_def)

lemma resample_at_blend:
  assumes "s \<noteq> 0" and "t \<noteq> 0"
  shows "resample_at input (t / s) i =
    blend (typed_at input \<lfloor>real i * s / t\<rfloor>)
      (typed_at input (min (\<lfloor>real i * s / t\<rfloor> + 1) (int (length input) - 1)))
      (real i * s / t - real_of_int \<lfloor>real i * s / t\<rfloor>)"
  using assms by (simp add: resample_at_def js_div_def math_floor_def Let_def)

lemma resample_at_0:
  assumes "s \<noteq> 0" and "t \<noteq> 0" and "input \<noteq> []"
  shows "resample_at input (t / s) 0 = Some (input ! 0)"
proof -
  from assms(3) have n: "0 < length input" by simp
  then have "min 1 (int (length input) - 1) < int (length input)" "0 \<le> min 1 (int (length input) - 1)"
    by linarith+
  then have "typed_at input (min 1 (int (length input) - 1)) = Some (input ! nat (min 1 (int (length input) - 1)))"
    by (simp add: typed_at_Some)
  moreover from n have "typed_at input 0 = Some (input ! 0)"
    by (simp add: typed_at_def)
  ultimately show ?thesis
    using assms(1,2) by (simp add: resample_at_def js_div_def math_floor_def blend_def)
qed

lemma index_in_bounds:
  fixes s t :: real
  assumes s: "0 < s" and t: "0 < t" and n: "0 < n"
    and i: "i < nat (max 1 (round (real n * (t / s))))"
  shows "0 \<le> \<lfloor>real i * s / t\<rfloor> \<and> \<lfloor>real i * s / t\<rfloor> \<le> int n - 1"
proof
  from s t have "0 \<le> real i * s / t" by simp
  then show "0 \<le> \<lfloor>real i * s / t\<rfloor>" by simp
next
  show "\<lfloor>real i * s / t\<rfloor> \<le> int n - 1"
  proof (cases "i = 0")
    case True
    with n show ?thesis by simp
  next
    case False
    with i have "int i < round (real n * (t / s))" by linarith
    then have "real i + 1 \<le> real_of_int (round (real n * (t / s)))" by linarith
    also have "\<dots> \<le> real n * (t / s) + 1 / 2"
      by (simp add: round_def)
    finally have "real i < real n * (t / s)" by simp
    then have "real i * s < real n * t"
      using s by (simp add: pos_less_divide_eq mult.commute mult.assoc)
    then have "real i * s / t < real n"
      using t by (simp add: pos_divide_less_eq)
    then have "\<lfloor>real i * s / t\<rfloor> < int n"
      by (simp add: floor_less_iff)
    then show ?thesis by simp
  qed
qed


lemma blend_Some: "blend (Some x) (Some y) w = Some (x * (1 - w) + y * w)"
  by (simp add: blend_def)

text \<open>
  Claim C7. With equal rates the resampler returns its input, the same values in the same
  number. With different (non-zero) rates and an input of length \<open>n\<close> the output has
  length \<open>max(1, round(n * targetRate / sourceRate))\<close>; the value at output index \<open>i\<close>
  is the blend of the input at \<open>floor(i * sourceRate / targetRate)\<close> and at its
  successor clamped to \<open>n - 1\<close>, weighted by the fractional part of
  \<open>i * sourceRate / targetRate\<close>; and the first output value is the first input value.
\<close>

theorem resampleToRate_linear:
  "(sourceRate = targetRate \<longrightarrow>
      resampleToRate input sourceRate targetRate = Some (map Some input))
   \<and> (sourceRate \<noteq> targetRate \<and> sourceRate \<noteq> 0 \<and> targetRate \<noteq> 0 \<longrightarrow>
        (\<exists>output. resampleToRate input sourceRate targetRate = Some output
          \<and> int (length output) = max 1 (round (real (length input) * targetRate / sourceRate))
          \<and> (\<forall>i<length output.
                output ! i =
                  blend (typed_at input \<lfloor>real i * sourceRate / targetRate\<rfloor>)
                    (typed_at input
                       (min (\<lfloor>real i * sourceRate / targetRate\<rfloor> + 1) (int (length input) - 1)))
                    (real i * sourceRate / targetRate
                       - real_of_int \<lfloor>real i * sourceRate / targetRate\<rfloor>))
          \<and> (input \<noteq> [] \<longrightarrow> output ! 0 = Some (input ! 0))))"
proof (intro conjI impI)
  assume "sourceRate = targetRate"
  then show "resampleToRate input sourceRate targetRate = Some (map Some input)"
    by (simp add: resampleToRate_same)
next
  assume "sourceRate \<noteq> targetRate \<and> sourceRate \<noteq> 0 \<and> targetRate \<noteq> 0"
  then have ne: "sourceRate \<noteq> targetRate" and s: "sourceRate \<noteq> 0" and t: "targetRate \<noteq> 0"
    by simp_all
  let ?len = "nat (max 1 (round (real (length input) * (targetRate / sourceRate))))"
  let ?out = "map (resample_at input (targetRate / sourceRate)) [0..<?len]"
  have run: "resampleToRate input sourceRate targetRate = Some ?out"
    using ne s by (rule resampleToRate_other)
  have len: "int (length ?out) = max 1 (round (real (length input) * targetRate / sourceRate))"
    by simp
  have nth: "?out ! i =
      blend (typed_at input \<lfloor>real i * sourceRate / targetRate\<rfloor>)
        (typed_at input
           (min (\<lfloor>real i * sourceRate / targetRate\<rfloor> + 1) (int (length input) - 1)))
        (real i * sourceRate / targetRate
           - real_of_int \<lfloor>real i * sourceRate / targetRate\<rfloor>)"
    if "i < length ?out" for i
    using that by (simp add: resample_at_blend [OF s t])
  have first: "?out ! 0 = Some (input ! 0)" if "input \<noteq> []"
  proof -
    have "0 < ?len" by simp
    then have "?out ! 0 = resample_at input (targetRate / sourceRate) 0"
      by (simp del: upt_Suc)
    then show ?thesis
      by (simp only: resample_at_0 [OF s t that])
  qed
  from run len nth first
  show "\<exists>output. resampleToRate input sourceRate targetRate = Some output
          \<and> int (length output) = max 1 (round (real (length input) * targetRate / sourceRate))
          \<and> (\<forall>i<length output.
                output ! i =
                  blend (typed_at input \<lfloor>real i * sourceRate / targetRate\<rfloor>)
                    (typed_at input
                       (min (\<lfloor>real i * sourceRate / targetRate\<rfloor> + 1) (int (length input) - 1)))
                    (real i * sourceRate / targetRate
                       - real_of_int \<lfloor>real i * sourceRate / targetRate\<rfloor>))
          \<and> (input \<noteq> [] \<longrightarrow> output ! 0 = Some (input ! 0))"
    by blast
qed

theorem resampleToRate_linear_witness:
  "(1 :: real) \<noteq> 2 \<and> (1 :: real) \<noteq> 0 \<and> (2 :: real) \<noteq> 0
   \<and> resampleToRate [1, 2, 3] 1 2 = Some [Some 1, Some (3 / 2), Some 2, Some (5 / 2), Some 3, Some 3]
   \<and> resampleToRate [1, 2, 3] 2 2 = Some [Some 1, Some 2, Some 3]
   \<and> (\<exists>output. resampleToRate [1, 2, 3] 1 2 = Some output \<and> output ! 0 = Some 1)"
proof -
  have up: "resampleToRate [1, 2, 3] 1 2 = Some [Some 1, Some (3 / 2), Some 2, Some (5 / 2), Some 3, Some 3]"
    by code_simp
  have same: "resampleToRate [1, 2, 3] 2 2 = Some [Some 1, Some 2, Some 3]"
    by code_simp
  from resampleToRate_linear [where sourceRate = 1 and targetRate = 2 and input = "[1, 2, 3]"]
  obtain out where "resampleToRate [1, 2, 3] 1 2 = Some out" and "out ! 0 = Some 1"
    by auto
  with up same show ?thesis by simp
qed

text \<open>
  Claim C10. For a non-empty input and positive rates the resampler returns an output in
  which no value is \<open>NaN\<close>, that is, no read was outside the input: at every output
  index \<open>i\<close> the index \<open>floor(i * sourceRate / targetRate)\<close> and its clamped successor
  both lie between 0 and \<open>n - 1\<close>, and the output value is the blend of the two input
  values at these indices.
\<close>

theorem resampleToRate_in_bounds:
  assumes nonempty: "input \<noteq> []" and s: "0 < sourceRate" and t: "0 < targetRate"
  shows "\<exists>output. resampleToRate input sourceRate targetRate = Some output
    \<and> (\<forall>v\<in>set output. v \<noteq> None)
    \<and> (sourceRate \<noteq> targetRate \<longrightarrow>
         (\<forall>i<length output.
            0 \<le> \<lfloor>real i * sourceRate / targetRate\<rfloor>
          \<and> \<lfloor>real i * sourceRate / targetRate\<rfloor> \<le> int (length input) - 1
          \<and> 0 \<le> min (\<lfloor>real i * sourceRate / targetRate\<rfloor> + 1) (int (length input) - 1)
          \<and> min (\<lfloor>real i * sourceRate / targetRate\<rfloor> + 1) (int (length input) - 1)
               \<le> int (length input) - 1
          \<and> output ! i =
              Some (input ! nat \<lfloor>real i * sourceRate / targetRate\<rfloor>
                      * (1 - (real i * sourceRate / targetRate
                               - real_of_int \<lfloor>real i * sourceRate / targetRate\<rfloor>))
                    + input ! nat (min (\<lfloor>real i * sourceRate / targetRate\<rfloor> + 1)
                                     (int (length input) - 1))
                      * (real i * sourceRate / targetRate
                           - real_of_int \<lfloor>real i * sourceRate / targetRate\<rfloor>))))"
proof (cases "sourceRate = targetRate")
  case True
  then have "resampleToRate input sourceRate targetRate = Some (map Some input)"
    by (simp add: resampleToRate_same)
  with True show ?thesis by auto
next
  case False
  from s t have s0: "sourceRate \<noteq> 0" and t0: "targetRate \<noteq> 0" by simp_all
  from nonempty have n: "0 < length input" by simp
  let ?len = "nat (max 1 (round (real (length input) * (targetRate / sourceRate))))"
  let ?out = "map (resample_at input (targetRate / sourceRate)) [0..<?len]"
  have run: "resampleToRate input sourceRate targetRate = Some ?out"
    using False s0 by (rule resampleToRate_other)
  have each: "0 \<le> \<lfloor>real i * sourceRate / targetRate\<rfloor>
          \<and> \<lfloor>real i * sourceRate / targetRate\<rfloor> \<le> int (length input) - 1
          \<and> 0 \<le> min (\<lfloor>real i * sourceRate / targetRate\<rfloor> + 1) (int (length input) - 1)
          \<and> min (\<lfloor>real i * sourceRate / targetRate\<rfloor> + 1) (int (length input) - 1)
               \<le> int (length input) - 1
          \<and> ?out ! i =
              Some (input ! nat \<lfloor>real i * sourceRate / targetRate\<rfloor>
                      * (1 - (real i * sourceRate / targetRate
                               - real_of_int \<lfloor>real i * sourceRate / targetRate\<rfloor>))
                    + input ! nat (min (\<lfloor>real i * sourceRate / targetRate\<rfloor> + 1)
                                     (int (length input) - 1))
                      * (real i * sourceRate / targetRate
                           - real_of_int \<lfloor>real i * sourceRate / targetRate\<rfloor>))"
    if i: "i < length ?out" for i
  proof -
    let ?index = "\<lfloor>real i * sourceRate / targetRate\<rfloor>"
    let ?next = "min (?index + 1) (int (length input) - 1)"
    from i have "i < ?len" by simp
    with s t n have idx: "0 \<le> ?index \<and> ?index \<le> int (length input) - 1"
      by (rule index_in_bounds)
    with n have nxt: "0 \<le> ?next \<and> ?next \<le> int (length input) - 1"
      by linarith
    from idx have a: "typed_at input ?index = Some (input ! nat ?index)"
      by (intro typed_at_Some) linarith+
    from nxt have b: "typed_at input ?next = Some (input ! nat ?next)"
      by (intro typed_at_Some) linarith+
    from i have "?out ! i = resample_at input (targetRate / sourceRate) i"
      by simp
    then have "?out ! i = Some (input ! nat ?index
                      * (1 - (real i * sourceRate / targetRate - real_of_int ?index))
                    + input ! nat ?next
                      * (real i * sourceRate / targetRate - real_of_int ?index))"
      by (simp only: resample_at_blend [OF s0 t0] a b blend_Some)
    with idx nxt show ?thesis by blast
  qed
  have "\<forall>v\<in>set ?out. v \<noteq> None"
  proof
    fix v
    assume "v \<in> set ?out"
    then obtain i where "i < length ?out" and "v = ?out ! i"
      by (metis in_set_conv_nth)
    with each [of i] show "v \<noteq> None" by simp
  qed
  with run each show ?thesis by blast
qed

theorem resampleToRate_in_bounds_witness:
  "[1, 2, 3 :: real] \<noteq> [] \<and> (0 :: real) < 2 \<and> (0 :: real) < 1
   \<and> resampleToRate [1, 2, 3] 2 1 = Some [Some 1, Some 3]
   \<and> (\<exists>output. resampleToRate [1, 2, 3] 2 1 = Some output \<and> (\<forall>v\<in>set output. v \<noteq> None))"
proof -
  have down: "resampleToRate [1, 2, 3] 2 1 = Some [Some 1, Some 3]"
    by code_simp
  from resampleToRate_in_bounds [where sourceRate = 2 and targetRate = 1 and input = "[1, 2, 3]"]
  obtain out where "resampleToRate [1, 2, 3] 2 1 = Some out" and "\<forall>v\<in>set out. v \<noteq> None"
    by auto
  with down show ?thesis by simp
qed

section \<open>Total mode\<close>

lemma total_inner_links:
  assumes "int i \<le> k" and "int cursor + (k - int i) \<le> int (length raw)"
  shows "\<exists>raw'. total_inner raw cursor k i = Inr (raw', cursor + nat (k - int i))
    \<and> length raw' = length raw
    \<and> (\<forall>j<length raw. raw' ! j =
          (if cursor \<le> j \<and> int j < int cursor + (k - int i) - 1
           then (raw ! j)\<lparr>linkNext := True\<rparr> else raw ! j))"
  using assms
proof (induction "nat (k - int i)" arbitrary: raw cursor i)
  case 0
  then have "\<not> int i < k" by simp
  then have "total_inner raw cursor k i = Inr (raw, cursor)"
    by (simp add: total_inner.simps)
  moreover from 0 have "nat (k - int i) = 0" by simp
  moreover have "\<forall>j<length raw. raw ! j =
          (if cursor \<le> j \<and> int j < int cursor + (k - int i) - 1
           then (raw ! j)\<lparr>linkNext := True\<rparr> else raw ! j)"
  proof (intro allI impI)
    fix j
    from 0 have "\<not> (cursor \<le> j \<and> int j < int cursor + (k - int i) - 1)"
      by linarith
    then show "raw ! j =
          (if cursor \<le> j \<and> int j < int cursor + (k - int i) - 1
           then (raw ! j)\<lparr>linkNext := True\<rparr> else raw ! j)"
      by (simp only: if_False)
  qed
  ultimately show ?case by simp
next
  case (Suc m)
  then have lt: "int i < k" and m: "m = nat (k - int (i + 1))" and le: "int (i + 1) \<le> k"
    by linarith+
  show ?case
  proof (cases "int i = k - 1")
    case True
    then have step: "total_inner raw cursor k i = total_inner raw (cursor + 1) k (i + 1)"
      using lt by (subst total_inner.simps) (simp add: Let_def)
    from True Suc.prems have fit: "int (cursor + 1) + (k - int (i + 1)) \<le> int (length raw)"
      by simp
    from Suc.hyps(1) [OF m le fit] obtain raw' where
      run: "total_inner raw (cursor + 1) k (i + 1) = Inr (raw', cursor + 1 + nat (k - int (i + 1)))"
      and len: "length raw' = length raw"
      and nth: "\<forall>j<length raw. raw' ! j =
          (if cursor + 1 \<le> j \<and> int j < int (cursor + 1) + (k - int (i + 1)) - 1
           then (raw ! j)\<lparr>linkNext := True\<rparr> else raw ! j)"
      by blast
    from True have c: "cursor + 1 + nat (k - int (i + 1)) = cursor + nat (k - int i)"
      by simp
    from True nth have "\<forall>j<length raw. raw' ! j =
          (if cursor \<le> j \<and> int j < int cursor + (k - int i) - 1
           then (raw ! j)\<lparr>linkNext := True\<rparr> else raw ! j)"
      by auto
    with step run len c show ?thesis by simp
  next
    case False
    with lt have more: "int i < k - 1" by simp
    with Suc.prems have inside: "cursor < length raw" and notlast: "int cursor \<noteq> int (length raw) - 1"
      by linarith+
    let ?raw1 = "raw[cursor := (raw ! cursor)\<lparr>linkNext := True\<rparr>]"
    from inside have set: "set_link raw cursor = Inr ?raw1"
      by (simp add: set_link_def)
    have step: "total_inner raw cursor k i = total_inner ?raw1 (cursor + 1) k (i + 1)"
      using lt False notlast set by (subst total_inner.simps) (simp add: Let_def)
    from Suc.prems have fit: "int (cursor + 1) + (k - int (i + 1)) \<le> int (length ?raw1)"
      by simp
    from Suc.hyps(1) [OF m le fit] obtain raw' where
      run: "total_inner ?raw1 (cursor + 1) k (i + 1) = Inr (raw', cursor + 1 + nat (k - int (i + 1)))"
      and len: "length raw' = length ?raw1"
      and nth: "\<forall>j<length ?raw1. raw' ! j =
          (if cursor + 1 \<le> j \<and> int j < int (cursor + 1) + (k - int (i + 1)) - 1
           then (?raw1 ! j)\<lparr>linkNext := True\<rparr> else ?raw1 ! j)"
      by blast
    from lt have c: "cursor + 1 + nat (k - int (i + 1)) = cursor + nat (k - int i)"
      by linarith
    have "raw' ! j =
          (if cursor \<le> j \<and> int j < int cursor + (k - int i) - 1
           then (raw ! j)\<lparr>linkNext := True\<rparr> else raw ! j)" if j: "j < length raw" for j
    proof (cases "j = cursor")
      case True
      with nth j more show ?thesis by simp
    next
      case False
      with nth j show ?thesis by (simp add: nth_list_update)
    qed
    with step run len c show ?thesis by simp
  qed
qed


lemma links_of_group:
  assumes k: "1 \<le> k" and fit: "cursor + k \<le> length xs"
    and links: "\<forall>j<k. linkNext (xs ! (cursor + j)) \<longleftrightarrow> j < k - 1"
  shows "map linkNext (drop cursor (take (cursor + k) xs)) = replicate (k - 1) True @ [False]"
proof (rule nth_equalityI)
  from k fit show "length (map linkNext (drop cursor (take (cursor + k) xs))) =
      length (replicate (k - 1) True @ [False])"
    by simp
next
  fix j
  assume "j < length (map linkNext (drop cursor (take (cursor + k) xs)))"
  with fit have j: "j < k" by simp
  with fit have "map linkNext (drop cursor (take (cursor + k) xs)) ! j = linkNext (xs ! (cursor + j))"
    by simp
  also from links j have "\<dots> \<longleftrightarrow> j < k - 1" by simp
  also from j have "\<dots> \<longleftrightarrow> (replicate (k - 1) True @ [False]) ! j"
    by (simp add: nth_append)
  finally show "map linkNext (drop cursor (take (cursor + k) xs)) ! j =
      (replicate (k - 1) True @ [False]) ! j" .
qed

lemma link_pattern_Cons:
  "link_pattern (k # ks) = replicate (k - 1) True @ [False] @ link_pattern ks"
  by (simp add: link_pattern_def)

lemma total_outer_links:
  fixes remainder :: real
  assumes base: "1 \<le> base"
    and fit: "cursor + sum_list (map (\<lambda>g. nat (if real g < remainder then base + 1 else base)) [g..<G])
      = length raw"
    and clear: "\<forall>j<length raw. cursor \<le> j \<longrightarrow> \<not> linkNext (raw ! j)"
  shows "\<exists>raw'. total_outer raw cursor (real G) base remainder g = Inr raw'
    \<and> length raw' = length raw
    \<and> take cursor raw' = take cursor raw
    \<and> map linkNext (drop cursor raw') =
        link_pattern (map (\<lambda>g. nat (if real g < remainder then base + 1 else base)) [g..<G])
    \<and> map (\<lambda>s. s\<lparr>linkNext := False\<rparr>) raw' = map (\<lambda>s. s\<lparr>linkNext := False\<rparr>) raw"
  using fit clear
proof (induction "G - g" arbitrary: g raw cursor)
  case 0
  then have "\<not> real g < real G" and "[g..<G] = []" by simp_all
  moreover from this have "total_outer raw cursor (real G) base remainder g = Inr raw"
    by (simp add: total_outer.simps)
  moreover from 0 \<open>[g..<G] = []\<close> have "drop cursor raw = []" by simp
  ultimately show ?case by (simp add: link_pattern_def)
next
  case (Suc m)
  let ?size = "\<lambda>g. nat (if real g < remainder then base + 1 else base)"
  define k where "k = (if real g < remainder then base + 1 else base)"
  have size_g: "?size g = nat k" by (simp add: k_def)
  from Suc.hyps(2) have g: "g < G" and m: "m = G - (g + 1)" by linarith+
  from g have upt: "[g..<G] = g # [g + 1..<G]" by (simp add: upt_conv_Cons)
  from base have k: "1 \<le> k" by (simp add: k_def)
  then have nk: "int (nat k) = k" "1 \<le> nat k" by linarith+
  from Suc.prems(1) upt have fit: "cursor + nat k + sum_list (map ?size [g + 1..<G]) = length raw"
    by (simp add: k_def)
  then have room: "int cursor + (k - int 0) \<le> int (length raw)"
    using k by linarith
  from total_inner_links [of 0 k cursor raw] k room obtain raw1 where
    inner: "total_inner raw cursor k 0 = Inr (raw1, cursor + nat k)"
    and len1: "length raw1 = length raw"
    and nth1: "\<forall>j<length raw. raw1 ! j =
          (if cursor \<le> j \<and> int j < int cursor + k - 1
           then (raw ! j)\<lparr>linkNext := True\<rparr> else raw ! j)"
    by auto
  have step: "total_outer raw cursor (real G) base remainder g =
      total_outer raw1 (cursor + nat k) (real G) base remainder (g + 1)"
    using g inner by (subst total_outer.simps) (simp add: Let_def k_def)
  from fit len1 have fit1: "(cursor + nat k) + sum_list (map ?size [g + 1..<G]) = length raw1"
    by simp
  have clear1: "\<forall>j<length raw1. cursor + nat k \<le> j \<longrightarrow> \<not> linkNext (raw1 ! j)"
  proof (intro allI impI)
    fix j
    assume j: "j < length raw1" and ge: "cursor + nat k \<le> j"
    from ge nk have "\<not> (cursor \<le> j \<and> int j < int cursor + k - 1)" by linarith
    with nth1 j len1 have "raw1 ! j = raw ! j" by auto
    moreover from ge have "cursor \<le> j" by simp
    ultimately show "\<not> linkNext (raw1 ! j)"
      using Suc.prems(2) j len1 by simp
  qed
  from Suc.hyps(1) [OF m fit1 clear1] obtain raw' where
    run: "total_outer raw1 (cursor + nat k) (real G) base remainder (g + 1) = Inr raw'"
    and len: "length raw' = length raw1"
    and before: "take (cursor + nat k) raw' = take (cursor + nat k) raw1"
    and after: "map linkNext (drop (cursor + nat k) raw') = link_pattern (map ?size [g + 1..<G])"
    and rest: "map (\<lambda>s. s\<lparr>linkNext := False\<rparr>) raw' = map (\<lambda>s. s\<lparr>linkNext := False\<rparr>) raw1"
    by blast
  have "take cursor raw1 = take cursor raw"
  proof (rule nth_equalityI)
    show "length (take cursor raw1) = length (take cursor raw)"
      using len1 by simp
  next
    fix j
    assume "j < length (take cursor raw1)"
    then have "j < cursor" "j < length raw" using len1 by simp_all
    with nth1 show "take cursor raw1 ! j = take cursor raw ! j" by auto
  qed
  moreover have "take cursor raw' = take cursor (take (cursor + nat k) raw')"
    by (simp add: min_def)
  ultimately have a: "take cursor raw' = take cursor raw"
    by (simp add: before min_def)
  from fit have fit2: "cursor + nat k \<le> length raw1"
    using len1 by simp
  have group: "\<forall>j<nat k. linkNext (raw1 ! (cursor + j)) \<longleftrightarrow> j < nat k - 1"
  proof (intro allI impI)
    fix j
    assume j: "j < nat k"
    with fit2 len1 have inside: "cursor + j < length raw" by simp
    show "linkNext (raw1 ! (cursor + j)) \<longleftrightarrow> j < nat k - 1"
    proof (cases "j < nat k - 1")
      case True
      with nk have "cursor \<le> cursor + j \<and> int (cursor + j) < int cursor + k - 1" by linarith
      with nth1 inside have "raw1 ! (cursor + j) = (raw ! (cursor + j))\<lparr>linkNext := True\<rparr>"
        by auto
      with True show ?thesis by simp
    next
      case False
      with j nk have "\<not> (cursor \<le> cursor + j \<and> int (cursor + j) < int cursor + k - 1)" by linarith
      with nth1 inside have "raw1 ! (cursor + j) = raw ! (cursor + j)"
        by auto
      with False Suc.prems(2) inside show ?thesis by simp
    qed
  qed
  have "drop cursor raw' = take (nat k) (drop cursor raw') @ drop (nat k) (drop cursor raw')"
    by (rule append_take_drop_id [symmetric])
  also have "take (nat k) (drop cursor raw') = drop cursor (take (cursor + nat k) raw')"
    by (simp add: drop_take)
  also have "drop (nat k) (drop cursor raw') = drop (cursor + nat k) raw'"
    by (simp add: add.commute)
  finally have "map linkNext (drop cursor raw') =
      map linkNext (drop cursor (take (cursor + nat k) raw1))
        @ map linkNext (drop (cursor + nat k) raw')"
    by (simp add: before)
  also have "map linkNext (drop cursor (take (cursor + nat k) raw1)) =
      replicate (nat k - 1) True @ [False]"
    using nk(2) fit2 group by (rule links_of_group)
  finally have b: "map linkNext (drop cursor raw') = link_pattern (map ?size [g..<G])"
    by (simp add: after upt link_pattern_Cons size_g del: upt_Suc)
  have "map (\<lambda>s. s\<lparr>linkNext := False\<rparr>) raw1 = map (\<lambda>s. s\<lparr>linkNext := False\<rparr>) raw"
  proof (rule nth_equalityI)
    show "length (map (\<lambda>s. s\<lparr>linkNext := False\<rparr>) raw1) = length (map (\<lambda>s. s\<lparr>linkNext := False\<rparr>) raw)"
      using len1 by simp
  next
    fix j
    assume "j < length (map (\<lambda>s. s\<lparr>linkNext := False\<rparr>) raw1)"
    then have "j < length raw" using len1 by simp
    with nth1 len1 show "map (\<lambda>s. s\<lparr>linkNext := False\<rparr>) raw1 ! j = map (\<lambda>s. s\<lparr>linkNext := False\<rparr>) raw ! j"
      by auto
  qed
  with rest have c: "map (\<lambda>s. s\<lparr>linkNext := False\<rparr>) raw' = map (\<lambda>s. s\<lparr>linkNext := False\<rparr>) raw"
    by simp
  from step run len len1 a b c show ?case by simp
qed

lemma link_chains_first_group:
  "map linkNext xs = replicate m True @ False # p \<Longrightarrow>
   \<exists>c rest. xs = c @ rest \<and> length c = m + 1 \<and> map linkNext rest = p
     \<and> link_chains xs = c # link_chains rest"
proof (induction m arbitrary: xs)
  case 0
  then obtain x rest where xs: "xs = x # rest" and x: "\<not> linkNext x" and rest: "map linkNext rest = p"
    by (cases xs) auto
  then have "xs = [x] @ rest \<and> length [x] = 0 + 1 \<and> map linkNext rest = p
      \<and> link_chains xs = [x] # link_chains rest"
    by simp
  then show ?case by blast
next
  case (Suc m)
  then obtain x xs' where xs: "xs = x # xs'" and x: "linkNext x"
    and xs': "map linkNext xs' = replicate m True @ False # p"
    by (cases xs) auto
  from Suc.IH [OF xs'] obtain c rest where c: "xs' = c @ rest" "length c = m + 1"
    "map linkNext rest = p" "link_chains xs' = c # link_chains rest"
    by blast
  with xs x have "xs = (x # c) @ rest \<and> length (x # c) = Suc m + 1 \<and> map linkNext rest = p
      \<and> link_chains xs = (x # c) # link_chains rest"
    by simp
  then show ?case by blast
qed

lemma link_chains_pattern:
  "map linkNext xs = link_pattern sizes \<Longrightarrow> \<forall>k\<in>set sizes. 1 \<le> k \<Longrightarrow>
   map length (link_chains xs) = sizes"
proof (induction sizes arbitrary: xs)
  case Nil
  then show ?case by (simp add: link_pattern_def)
next
  case (Cons k ks)
  then have "map linkNext xs = replicate (k - 1) True @ False # link_pattern ks"
    by (simp add: link_pattern_Cons)
  from link_chains_first_group [OF this] obtain c rest where
    c: "length c = k - 1 + 1" "map linkNext rest = link_pattern ks"
      "link_chains xs = c # link_chains rest"
    by blast
  from Cons.prems(2) have "1 \<le> k" and "\<forall>k\<in>set ks. 1 \<le> k" by simp_all
  with c Cons.IH [of rest] show ?case by simp
qed

lemma buildGroups_all_selected:
  assumes "\<forall>s\<in>set segs. selected s"
  shows "buildGroups segs = link_chains segs"
proof -
  have sub: "set c \<subseteq> set segs" if "c \<in> set (link_chains segs)" for c
    using that concat_link_chains [of segs] by (metis Sup_upper image_eqI set_concat)
  have "map (filter selected) (link_chains segs) = map (\<lambda>c. c) (link_chains segs)"
  proof (rule map_cong [OF refl])
    fix c
    assume "c \<in> set (link_chains segs)"
    with sub assms have "\<forall>s\<in>set c. selected s" by blast
    then show "filter selected c = c" by simp
  qed
  then have "buildGroups segs = filter (\<lambda>g. g \<noteq> []) (link_chains segs)"
    by (simp add: buildGroups_chains)
  also have "\<dots> = link_chains segs"
    using link_chains_nonempty [of segs] by (simp add: filter_id_conv) metis
  finally show ?thesis .
qed

lemma sizes_replicate:
  assumes "r \<le> T"
  shows "map (\<lambda>g. nat (if real g < real r then int b + 1 else int b)) [0..<T] =
    replicate r (b + 1) @ replicate (T - r) b"
proof -
  let ?size = "\<lambda>g. nat (if real g < real r then int b + 1 else int b)"
  from assms have "[0..<T] = [0..<r] @ [r..<T]"
    by (metis le_add_diff_inverse upt_add_eq_append zero_le)
  moreover have "map ?size [0..<r] = map (\<lambda>g. b + 1) [0..<r]"
    by (rule map_cong [OF refl]) simp
  moreover have "map ?size [r..<T] = map (\<lambda>g. b) [r..<T]"
    by (rule map_cong [OF refl]) simp
  ultimately show ?thesis
    by (simp add: map_replicate_const)
qed

lemma sizes_sum:
  fixes n T :: nat
  assumes "0 < T"
  shows "sum_list (replicate (n mod T) (n div T + 1) @ replicate (T - n mod T) (n div T)) = n"
proof -
  from assms have r: "n mod T \<le> T" by simp
  have "sum_list (replicate (n mod T) (n div T + 1) @ replicate (T - n mod T) (n div T)) =
      n mod T * (n div T + 1) + (T - n mod T) * (n div T)"
    by (simp add: sum_list_replicate)
  also have "\<dots> = (n mod T + (T - n mod T)) * (n div T) + n mod T"
    by (simp add: add_mult_distrib)
  also from r have "n mod T + (T - n mod T) = T" by simp
  also have "T * (n div T) + n mod T = n" by simp
  finally show ?thesis .
qed

lemma total_group_sizes_eq:
  "total_group_sizes n G =
     replicate (n mod nat (min (max 1 G) (int n))) (n div nat (min (max 1 G) (int n)) + 1)
     @ replicate (nat (min (max 1 G) (int n)) - n mod nat (min (max 1 G) (int n)))
         (n div nat (min (max 1 G) (int n)))"
  by (simp add: total_group_sizes_def Let_def)

lemma total_links_groups:
  assumes n: "raw \<noteq> []"
    and clear: "\<forall>s\<in>set raw. \<not> linkNext s"
  shows "\<exists>raw'. total_links (real_of_int (max 1 G)) raw = Inr raw'
    \<and> length raw' = length raw
    \<and> map linkNext raw' = link_pattern (total_group_sizes (length raw) G)
    \<and> map (\<lambda>s. s\<lparr>linkNext := False\<rparr>) raw' = map (\<lambda>s. s\<lparr>linkNext := False\<rparr>) raw"
proof -
  define T where "T = nat (min (max 1 G) (int (length raw)))"
  define b where "b = length raw div T"
  define r where "r = length raw mod T"
  from n have len: "0 < length raw" by simp
  then have T: "0 < T" "T \<le> length raw" by (simp_all add: T_def)
  then have r: "r \<le> T" by (simp add: r_def)
  from T have b: "1 \<le> int b"
    by (simp add: b_def Suc_le_eq div_greater_zero_iff)
  from len have target: "min (real_of_int (max 1 G)) (real (length raw)) = real T"
    by (simp add: T_def min_def max_def)
  from T have quot: "js_div (real (length raw)) (real T) = Some (real (length raw) / real T)"
    by (simp add: js_div_def)
  have base: "math_floor (real (length raw) / real T) = int b"
    by (simp add: math_floor_def b_def floor_divide_of_nat_eq)
  from T have "js_rem (real_of_int (int (length raw))) (real_of_int (int T)) =
      Some (real_of_int (int (length raw) mod int T))"
    by (intro js_rem_of_int) simp_all
  moreover have "real_of_int (int (length raw) mod int T) = real r"
    unfolding r_def zmod_int [symmetric] by simp
  ultimately have rem: "js_rem (real (length raw)) (real T) = Some (real r)"
    by simp
  have run: "total_links (real_of_int (max 1 G)) raw = total_outer raw 0 (real T) (int b) (real r) 0"
    by (simp add: total_links_def Let_def target quot base rem)
  have sizes: "map (\<lambda>g. nat (if real g < real r then int b + 1 else int b)) [0..<T] =
      total_group_sizes (length raw) G"
  proof -
    from r have "map (\<lambda>g. nat (if real g < real r then int b + 1 else int b)) [0..<T] =
        replicate r (b + 1) @ replicate (T - r) b"
      by (rule sizes_replicate)
    then show ?thesis
      unfolding total_group_sizes_eq T_def b_def r_def .
  qed
  from T(1) have "sum_list (total_group_sizes (length raw) G) = length raw"
    unfolding total_group_sizes_eq T_def [symmetric] by (rule sizes_sum)
  with sizes have fit: "0 + sum_list (map (\<lambda>g. nat (if real g < real r then int b + 1 else int b)) [0..<T])
      = length raw"
    by simp
  from clear have none: "\<forall>j<length raw. 0 \<le> j \<longrightarrow> \<not> linkNext (raw ! j)"
    by simp
  from total_outer_links [OF b fit none] sizes run show ?thesis
    by simp
qed

lemma applyAutoGroup_total:
  assumes "segments st \<noteq> []" and "autoGroupMode st = ModeTotal"
  shows "applyAutoGroup st =
    (case total_links (max 1 (autoGroupValue st)) (segments (resetGroupingState st)) of
       Inl (err, raw') \<Rightarrow> Inl (err, (resetGroupingState st)\<lparr>segments := raw'\<rparr>)
     | Inr raw' \<Rightarrow> Inr ((resetGroupingState st)\<lparr>segments := raw', showAutoGroupModal := False\<rparr>))"
  using assms by (simp add: applyAutoGroup_def Let_def)

lemma total_group_sizes_positive:
  assumes "0 < n"
  shows "\<forall>k\<in>set (total_group_sizes n G). 1 \<le> k"
proof -
  from assms have "0 < nat (min (max 1 G) (int n))" "nat (min (max 1 G) (int n)) \<le> n"
    by simp_all
  then have "1 \<le> n div nat (min (max 1 G) (int n))"
    by (simp add: Suc_le_eq div_greater_zero_iff)
  then show ?thesis
    by (auto simp: total_group_sizes_eq)
qed

lemma link_pattern_last:
  "sizes \<noteq> [] \<Longrightarrow> \<not> last (link_pattern sizes)"
  by (induction sizes rule: rev_induct) (simp_all add: link_pattern_def)

text \<open>
  Claim C4. In total mode with an integer parameter \<open>G\<close> on a non-empty list of \<open>total\<close>
  segments the grouper succeeds. With \<open>G\<close> clamped to \<open>1..total\<close>,
  \<open>base = floor(total / G)\<close> and \<open>remainder = total mod G\<close>, the list is cut in order
  into \<open>G\<close> groups, the first \<open>remainder\<close> of \<open>base + 1\<close> members and the others of
  \<open>base\<close> members: \<open>linkNext\<close> is set on every member of a group but its last, the
  groups that \<open>buildGroups\<close> then derives have exactly these sizes, and the very last
  segment is not linked. With \<open>G = 3\<close> on seven segments the sizes are 3, 2, 2.
\<close>

theorem total_mode_group_sizes:
  assumes nonempty: "segments st \<noteq> []"
    and mode: "autoGroupMode st = ModeTotal"
    and val: "autoGroupValue st = real_of_int G"
  shows "\<exists>st'. applyAutoGroup st = Inr st'
    \<and> map linkNext (segments st') = link_pattern (total_group_sizes (length (segments st)) G)
    \<and> map length (buildGroups (segments st')) = total_group_sizes (length (segments st)) G
    \<and> length (total_group_sizes (length (segments st)) G) =
        nat (min (max 1 G) (int (length (segments st))))
    \<and> \<not> linkNext (last (segments st'))"
proof -
  let ?raw = "segments (resetGroupingState st)"
  let ?sizes = "total_group_sizes (length (segments st)) G"
  have len0: "length ?raw = length (segments st)"
    by (simp add: segments_resetGroupingState)
  with nonempty have raw: "?raw \<noteq> []" by auto
  have clear: "\<forall>s\<in>set ?raw. \<not> linkNext s" and chosen: "\<forall>s\<in>set ?raw. selected s"
    by (auto simp: segments_resetGroupingState)
  have v: "max 1 (autoGroupValue st) = real_of_int (max 1 G)"
    by (simp add: val)
  from total_links_groups [OF raw clear, of G] obtain raw' where
    run: "total_links (real_of_int (max 1 G)) ?raw = Inr raw'"
    and len: "length raw' = length ?raw"
    and links: "map linkNext raw' = link_pattern ?sizes"
    and rest: "map (\<lambda>s. s\<lparr>linkNext := False\<rparr>) raw' = map (\<lambda>s. s\<lparr>linkNext := False\<rparr>) ?raw"
    by (auto simp: len0)
  let ?st' = "(resetGroupingState st)\<lparr>segments := raw', showAutoGroupModal := False\<rparr>"
  have result: "applyAutoGroup st = Inr ?st'"
    by (simp add: applyAutoGroup_total [OF nonempty mode] v run)
  have sel: "\<forall>s\<in>set raw'. selected s"
  proof
    fix s
    assume "s \<in> set raw'"
    then obtain j where j: "j < length raw'" and s: "s = raw' ! j"
      by (metis in_set_conv_nth)
    from rest j len have "(raw' ! j)\<lparr>linkNext := False\<rparr> = (?raw ! j)\<lparr>linkNext := False\<rparr>"
      by (metis nth_map)
    then have "selected (raw' ! j) = selected (?raw ! j)"
      by (metis Segment.select_convs(5) Segment.surjective Segment.update_convs(6))
    with chosen j len s show "selected s" by simp
  qed
  from nonempty have pos: "0 < length (segments st)" by simp
  from links total_group_sizes_positive [OF pos, of G]
  have chains: "map length (link_chains raw') = ?sizes"
    by (rule link_chains_pattern)
  with sel have groups: "map length (buildGroups raw') = ?sizes"
    by (simp add: buildGroups_all_selected)
  from pos have count: "length ?sizes = nat (min (max 1 G) (int (length (segments st))))"
    by (simp add: total_group_sizes_eq)
  from pos have "0 < nat (min (max 1 G) (int (length (segments st))))" by linarith
  then have "0 < length ?sizes" by (simp only: count)
  then have "?sizes \<noteq> []" by (rule length_greater_0_conv [THEN iffD1])
  then have "\<not> last (link_pattern ?sizes)"
    by (rule link_pattern_last)
  moreover from raw len have "raw' \<noteq> []" by auto
  then have "last (map linkNext raw') = linkNext (last raw')"
    by (rule last_map)
  ultimately have "\<not> linkNext (last raw')"
    by (simp add: links)
  with result links groups count show ?thesis
    by (intro exI [of _ ?st']) simp
qed

theorem total_mode_group_sizes_witness:
  "segments (example_grouping ModeTotal 3) \<noteq> []
   \<and> autoGroupMode (example_grouping ModeTotal 3) = ModeTotal
   \<and> autoGroupValue (example_grouping ModeTotal 3) = real_of_int 3
   \<and> total_group_sizes 7 3 = [3, 2, 2]
   \<and> (\<exists>st'. applyAutoGroup (example_grouping ModeTotal 3) = Inr st'
        \<and> map linkNext (segments st') = [True, True, False, True, False, True, False]
        \<and> map length (buildGroups (segments st')) = [3, 2, 2])"
proof -
  have hyps: "segments (example_grouping ModeTotal 3) \<noteq> []
      \<and> autoGroupMode (example_grouping ModeTotal 3) = ModeTotal
      \<and> autoGroupValue (example_grouping ModeTotal 3) = real_of_int 3"
    by (simp add: example_grouping_def example_app_def)
  have sizes: "total_group_sizes 7 3 = [3, 2, 2]"
    by code_simp
  have vals: "(case applyAutoGroup (example_grouping ModeTotal 3) of
        Inl err \<Rightarrow> False
      | Inr st' \<Rightarrow> map linkNext (segments st') = [True, True, False, True, False, True, False]
          \<and> map length (buildGroups (segments st')) = [3, 2, 2])"
    by code_simp
  from hyps total_mode_group_sizes [of "example_grouping ModeTotal 3" 3]
  obtain st' where "applyAutoGroup (example_grouping ModeTotal 3) = Inr st'"
    by blast
  with vals hyps sizes show ?thesis by simp
qed

text \<open>
  The parameter of the dialog is a number, not necessarily an integer. With the value
  1.5 on seven segments the loops of total mode run past the end of the list and the
  assignment throws.
\<close>

lemma total_mode_fraction_throws:
  "(case applyAutoGroup (example_grouping ModeTotal (3 / 2)) of
      Inl (err, st') \<Rightarrow> err = TypeError \<and> showAutoGroupModal st'
    | Inr st' \<Rightarrow> False)"
  by code_simp

end
